theory Spec2Isabelle
  imports Main "HOL-Library.Word"
begin

section \<open>Text parsing (text\_parsing.h)\<close>

text \<open>
  A \<open>std::string_view\<close> is modelled by the list of its characters. A function that
  takes the view by reference and shortens it returns the remaining view next to its
  result. \<open>size_t\<close> is the 64-bit word type of the tested platform.
\<close>

type_synonym size_t = "64 word"

text \<open>The two lambdas handed to \<open>read_generic\<close>: \<open>c == ' ' || c == '\n'\<close> and its negation.\<close>

definition is_whitespace :: "char \<Rightarrow> bool" where
  "is_whitespace c \<longleftrightarrow> c = CHR '' '' \<or> c = CHR 0x0A"

definition is_non_whitespace :: "char \<Rightarrow> bool" where
  "is_non_whitespace c \<longleftrightarrow> \<not> (c = CHR '' '' \<or> c = CHR 0x0A)"

text \<open>
  The loop of \<open>read_generic\<close>: \<open>index\<close> is advanced over the characters of the text
  until the first one that fails \<open>func\<close>.
\<close>

fun read_generic_index :: "(char \<Rightarrow> bool) \<Rightarrow> string \<Rightarrow> nat \<Rightarrow> nat" where
  "read_generic_index func [] index = index"
| "read_generic_index func (c # cs) index =
     (if \<not> func c then index else read_generic_index func cs (index + 1))"

definition remove_suffix :: "nat \<Rightarrow> string \<Rightarrow> string" where
  "remove_suffix n s = take (length s - n) s"

definition remove_prefix :: "nat \<Rightarrow> string \<Rightarrow> string" where
  "remove_prefix n s = drop n s"

text \<open>\<open>read_generic\<close> returns the token and the remainder of the text.\<close>

definition read_generic :: "string \<Rightarrow> (char \<Rightarrow> bool) \<Rightarrow> string \<times> string" where
  "read_generic text func =
     (let index = read_generic_index func text 0;
          token = remove_suffix (length text - index) text;
          text' = remove_prefix index text
      in (token, text'))"

definition read_non_whitespace :: "string \<Rightarrow> string \<times> string" where
  "read_non_whitespace input = read_generic input is_non_whitespace"

definition read_whitespace :: "string \<Rightarrow> string \<times> string" where
  "read_whitespace input = read_generic input is_whitespace"

text \<open>
  In \<open>rval * 10 + c - '0'\<close> the character is promoted to \<open>int\<close> and then converted to
  \<open>size_t\<close>; \<open>char\<close> is signed on the tested platform (gcc, x86-64), so a byte above
  127 is sign-extended. All arithmetic is modulo \<open>2 ^ 64\<close>.
\<close>

definition char_to_size_t :: "char \<Rightarrow> size_t" where
  "char_to_size_t c =
     (if (of_char c :: nat) < 128 then of_nat (of_char c) else of_nat (of_char c) - 256)"

fun view_to_int_loop :: "string \<Rightarrow> size_t \<Rightarrow> size_t" where
  "view_to_int_loop [] rval = rval"
| "view_to_int_loop (c # cs) rval = view_to_int_loop cs (rval * 10 + char_to_size_t c - 48)"

definition view_to_int :: "string \<Rightarrow> size_t" where
  "view_to_int input = view_to_int_loop input 0"

text \<open>\<open>read_int\<close> returns the integer and the remainder of the input.\<close>

definition read_int :: "string \<Rightarrow> size_t \<times> string" where
  "read_int input =
     (let (token, input1) = read_non_whitespace input;
          (ws, input2) = read_whitespace input1
      in (view_to_int token, input2))"

text \<open>\<open>read_int_v\<close> takes the view by value: the caller's view is not changed.\<close>

definition read_int_v :: "string \<Rightarrow> size_t" where
  "read_int_v input =
     (let (token, input1) = read_non_whitespace input;
          (ws, input2) = read_whitespace input1
      in view_to_int token)"

text \<open>
  \<open>count_words\<close> counts in an \<open>int\<close>. Signed overflow is undefined, and it would take
  a text of more than \<open>2 ^ 31\<close> characters; the model counts in the unbounded integers
  and the theorems below are stated for texts shorter than that.
\<close>

fun count_words_loop :: "string \<Rightarrow> bool \<Rightarrow> int \<Rightarrow> int" where
  "count_words_loop [] currently_in_a_word word_count = word_count"
| "count_words_loop (c # cs) currently_in_a_word word_count =
     (let c_is_whitespace = (c = CHR '' '' \<or> c = CHR 0x0A);
          word_count' = (if \<not> c_is_whitespace \<and> \<not> currently_in_a_word
                         then word_count + 1 else word_count)
      in count_words_loop cs (\<not> c_is_whitespace) word_count')"

definition count_words :: "string \<Rightarrow> int" where
  "count_words input = count_words_loop input False 0"

section \<open>The scanner described in words\<close>

text \<open>
  The accumulation \<open>value = value * 10 + digit\<close> over the characters of a token, from 0,
  in \<open>size_t\<close> arithmetic, with \<open>digit = c - '0'\<close>.
\<close>

definition accumulate_digits :: "string \<Rightarrow> size_t" where
  "accumulate_digits token = foldl (\<lambda>v c. v * 10 + (char_to_size_t c - 48)) 0 token"

text \<open>The decimal value of a token as a natural number, without any wrap-around.\<close>

definition decimal :: "string \<Rightarrow> nat" where
  "decimal token = foldl (\<lambda>v c. v * 10 + (of_char c - 48)) 0 token"

definition is_digit :: "char \<Rightarrow> bool" where
  "is_digit c \<longleftrightarrow> 48 \<le> (of_char c :: nat) \<and> (of_char c :: nat) \<le> 57"

subsection \<open>Scanner lemmas\<close>

lemma read_generic_index_eq:
  "read_generic_index func s index = index + length (takeWhile func s)"
  by (induction s arbitrary: index) auto

lemma read_generic_eq:
  "read_generic text func = (takeWhile func text, dropWhile func text)"
proof -
  have le: "length (takeWhile func text) \<le> length text"
    by (rule length_takeWhile_le)
  have "take (length (takeWhile func text)) text = takeWhile func text"
    by (metis takeWhile_eq_take)
  moreover have "drop (length (takeWhile func text)) text = dropWhile func text"
    by (metis dropWhile_eq_drop)
  ultimately show ?thesis
    using le by (simp add: read_generic_def read_generic_index_eq remove_suffix_def
        remove_prefix_def Let_def)
qed

lemma view_to_int_loop_foldl:
  "view_to_int_loop token rval = foldl (\<lambda>v c. v * 10 + (char_to_size_t c - 48)) rval token"
  by (induction token arbitrary: rval) (auto simp: algebra_simps)

lemma view_to_int_accumulate: "view_to_int token = accumulate_digits token"
  by (simp add: view_to_int_def accumulate_digits_def view_to_int_loop_foldl)

lemma read_int_eq:
  "read_int input =
     (accumulate_digits (takeWhile is_non_whitespace input),
      dropWhile is_whitespace (dropWhile is_non_whitespace input))"
  by (simp add: read_int_def read_non_whitespace_def read_whitespace_def read_generic_eq
      view_to_int_accumulate)


section \<open>Identifiers (numeric\_id.h)\<close>

text \<open>
  The failures of the program are C++ exceptions: \<open>std::out_of_range\<close> from
  \<open>std::array::at\<close> and \<open>std::bad_optional_access\<close> from \<open>std::optional::value\<close>.
  Iterating over more nodes than the node array holds (a constructor argument larger than
  \<open>max_nodes\<close>) has no defined behaviour and is a failure of its own.
\<close>

datatype error = out_of_range | bad_optional_access | undefined_behaviour

text \<open>
  \<open>numeric_id_t<tag>\<close> wraps a \<open>std::optional<size_t>\<close>; the default-constructed
  identifier holds no value. The tag only separates node and edge identifiers for the C++
  type checker. Identifier values index arrays and are modelled as natural numbers.
\<close>

datatype numeric_id_t = numeric_id_t "nat option"

type_synonym node_id_t = numeric_id_t
type_synonym edge_id_t = numeric_id_t
type_synonym optional_edge_id_t = "edge_id_t option"

fun id_has_value :: "numeric_id_t \<Rightarrow> bool" where
  "id_has_value (numeric_id_t x) = (x \<noteq> None)"

fun id_value :: "numeric_id_t \<Rightarrow> error + nat" where
  "id_value (numeric_id_t None) = Inl bad_optional_access"
| "id_value (numeric_id_t (Some v)) = Inr v"

text \<open>\<open>std::array::at\<close>: a bounds-checked access.\<close>

definition array_at :: "'a list \<Rightarrow> nat \<Rightarrow> error + 'a" where
  "array_at xs i = (if i < length xs then Inr (xs ! i) else Inl out_of_range)"

section \<open>Edges, nodes and the graph (main.cpp)\<close>

record edge_t =
  edge_dst_node :: node_id_t
  edge_next_edge :: optional_edge_id_t

record edge_storage_t =
  edge_memory :: "edge_t list"
  next_available :: nat

record node_t =
  node_id :: node_id_t
  edge_begin_id :: optional_edge_id_t

record graph_raw =
  used_nodes :: nat
  nodes :: "node_t list"
  edges :: edge_storage_t

text \<open>The default constructors \<open>edge_t()\<close> and \<open>node_t()\<close>, and \<open>node_t(size_t)\<close>.\<close>

definition edge_default :: edge_t where
  "edge_default = \<lparr>edge_dst_node = numeric_id_t None, edge_next_edge = None\<rparr>"

definition node_default :: node_t where
  "node_default = \<lparr>node_id = numeric_id_t None, edge_begin_id = None\<rparr>"

definition node_of_id :: "nat \<Rightarrow> node_t" where
  "node_of_id node_id_arg = \<lparr>node_id = numeric_id_t (Some node_id_arg), edge_begin_id = None\<rparr>"

text \<open>
  \<open>alloc_edge\<close> advances \<open>next_available\<close> before the checked write. When \<open>at\<close> throws,
  the counter has been advanced and no edge has been written; the pool after the call is
  returned in both cases. \<open>max_edges\<close> is the length of \<open>edge_memory\<close>.
\<close>

definition alloc_edge ::
  "edge_storage_t \<Rightarrow> node_id_t \<Rightarrow> optional_edge_id_t \<Rightarrow> (error + edge_id_t) \<times> edge_storage_t" where
  "alloc_edge pool node next =
     (let candidate = next_available pool;
          pool1 = pool\<lparr>next_available := next_available pool + 1\<rparr>
      in if candidate < length (edge_memory pool1)
         then (Inr (numeric_id_t (Some candidate)),
               pool1\<lparr>edge_memory := (edge_memory pool1)
                  [candidate := \<lparr>edge_dst_node = node, edge_next_edge = next\<rparr>]\<rparr>)
         else (Inl out_of_range, pool1))"

definition get_edge :: "edge_storage_t \<Rightarrow> edge_id_t \<Rightarrow> error + edge_t" where
  "get_edge pool index =
     (case id_value index of
        Inl e \<Rightarrow> Inl e
      | Inr i \<Rightarrow> array_at (edge_memory pool) i)"

text \<open>
  The constructor \<open>graph_raw(used_nodes_arg)\<close> for the template arguments \<open>max_nodes\<close>
  and \<open>max_edges\<close>: value-initialised storage, then the first \<open>used_nodes\<close> nodes get
  their index as identifier.
\<close>

definition graph_raw_new :: "nat \<Rightarrow> nat \<Rightarrow> nat \<Rightarrow> error + graph_raw" where
  "graph_raw_new max_nodes max_edges used_nodes_arg =
     (if used_nodes_arg \<le> max_nodes
      then Inr \<lparr>used_nodes = used_nodes_arg,
                nodes = fold (\<lambda>idx ns. ns[idx := node_of_id idx]) [0..<used_nodes_arg]
                          (replicate max_nodes node_default),
                edges = \<lparr>edge_memory = replicate max_edges edge_default, next_available = 0\<rparr>\<rparr>
      else Inl undefined_behaviour)"

definition add_edge :: "graph_raw \<Rightarrow> node_id_t \<Rightarrow> node_id_t \<Rightarrow> error + graph_raw" where
  "add_edge graph src_node dst_node =
     (case id_value src_node of
        Inl e \<Rightarrow> Inl e
      | Inr s \<Rightarrow>
         (case array_at (nodes graph) s of
            Inl e \<Rightarrow> Inl e
          | Inr node \<Rightarrow>
             (let old_first_edge = edge_begin_id node
              in case alloc_edge (edges graph) dst_node old_first_edge of
                   (Inl e, pool) \<Rightarrow> Inl e
                 | (Inr new_edge_idx, pool) \<Rightarrow>
                     Inr (graph\<lparr>edges := pool,
                            nodes := (nodes graph)[s := node\<lparr>edge_begin_id := Some new_edge_idx\<rparr>]\<rparr>))))"

definition get_num_nodes :: "graph_raw \<Rightarrow> nat" where
  "get_num_nodes graph = used_nodes graph"

definition first_edge :: "graph_raw \<Rightarrow> node_id_t \<Rightarrow> error + optional_edge_id_t" where
  "first_edge graph node_idx =
     (case id_value node_idx of
        Inl e \<Rightarrow> Inl e
      | Inr n \<Rightarrow> (case array_at (nodes graph) n of
                    Inl e \<Rightarrow> Inl e
                  | Inr node \<Rightarrow> Inr (edge_begin_id node)))"

definition next_edge :: "graph_raw \<Rightarrow> edge_id_t \<Rightarrow> error + optional_edge_id_t" where
  "next_edge graph edge_idx =
     (case get_edge (edges graph) edge_idx of
        Inl e \<Rightarrow> Inl e
      | Inr edge \<Rightarrow> Inr (edge_next_edge edge))"

definition dst_node :: "graph_raw \<Rightarrow> edge_id_t \<Rightarrow> error + node_id_t" where
  "dst_node graph edge_idx =
     (case get_edge (edges graph) edge_idx of
        Inl e \<Rightarrow> Inl e
      | Inr edge \<Rightarrow> Inr (edge_dst_node edge))"

text \<open>
  The walk over one edge list, as every loop of the program writes it:
  \<open>for (edge_idx = first; edge_idx.has_value(); edge_idx = next_edge(edge_idx.value()))\<close>.
  \<open>print\<close> emits the destination and the edge identifier of each edge; the model returns
  them as a list. On a cyclic list the loop does not return: the result \<open>None\<close> stands
  for fuel that ran out.
\<close>

fun print_edges ::
  "nat \<Rightarrow> graph_raw \<Rightarrow> optional_edge_id_t \<Rightarrow> (error + (nat \<times> nat) list) option" where
  "print_edges 0 graph edge_idx = None"
| "print_edges (Suc fuel) graph edge_idx =
     (case edge_idx of
        None \<Rightarrow> Some (Inr [])
      | Some e \<Rightarrow>
         (case get_edge (edges graph) e of
            Inl err \<Rightarrow> Some (Inl err)
          | Inr edge \<Rightarrow>
             (case id_value (edge_dst_node edge) of
                Inl err \<Rightarrow> Some (Inl err)
              | Inr d \<Rightarrow>
                 (case id_value e of
                    Inl err \<Rightarrow> Some (Inl err)
                  | Inr i \<Rightarrow>
                     (case print_edges fuel graph (edge_next_edge edge) of
                        None \<Rightarrow> None
                      | Some (Inl err) \<Rightarrow> Some (Inl err)
                      | Some (Inr row) \<Rightarrow> Some (Inr ((d, i) # row)))))))"

text \<open>\<open>print\<close>: one row per used node, the node identifier and its edge list.\<close>

fun print_nodes ::
  "nat \<Rightarrow> graph_raw \<Rightarrow> node_t list \<Rightarrow> (error + (nat \<times> (nat \<times> nat) list) list) option" where
  "print_nodes fuel graph [] = Some (Inr [])"
| "print_nodes fuel graph (node # rest) =
     (case id_value (node_id node) of
        Inl err \<Rightarrow> Some (Inl err)
      | Inr n \<Rightarrow>
         (case print_edges fuel graph (edge_begin_id node) of
            None \<Rightarrow> None
          | Some (Inl err) \<Rightarrow> Some (Inl err)
          | Some (Inr row) \<Rightarrow>
             (case print_nodes fuel graph rest of
                None \<Rightarrow> None
              | Some (Inl err) \<Rightarrow> Some (Inl err)
              | Some (Inr rows) \<Rightarrow> Some (Inr ((n, row) # rows)))))"

definition print_graph ::
  "nat \<Rightarrow> graph_raw \<Rightarrow> (error + (nat \<times> (nat \<times> nat) list) list) option" where
  "print_graph fuel graph =
     (if used_nodes graph \<le> length (nodes graph)
      then print_nodes fuel graph (take (used_nodes graph) (nodes graph))
      else Some (Inl undefined_behaviour))"

section \<open>Reading the graph\<close>

lemma dropWhile_shorter:
  "s \<noteq> [] \<Longrightarrow> P (hd s) \<Longrightarrow> length (dropWhile P s) < length s"
  by (cases s) (auto simp: less_Suc_eq_le length_dropWhile_le)

lemma read_int_rest_le: "length (snd (read_int input)) \<le> length input"
  by (simp add: read_int_eq) (meson length_dropWhile_le order_trans)

lemma read_int_rest_shorter:
  assumes "input \<noteq> []"
  shows "length (snd (read_int input)) < length input"
proof (cases "is_non_whitespace (hd input)")
  case True
  then have "length (dropWhile is_non_whitespace input) < length input"
    using assms by (simp add: dropWhile_shorter)
  moreover have "length (dropWhile is_whitespace (dropWhile is_non_whitespace input))
      \<le> length (dropWhile is_non_whitespace input)"
    by (rule length_dropWhile_le)
  ultimately show ?thesis by (simp add: read_int_eq)
next
  case False
  then have ws: "is_whitespace (hd input)"
    by (simp add: is_whitespace_def is_non_whitespace_def)
  from False assms have "dropWhile is_non_whitespace input = input"
    by (cases input) auto
  then show ?thesis
    using ws assms by (simp add: read_int_eq dropWhile_shorter)
qed

text \<open>
  The \<open>while (text.size() > 0)\<close> loop of \<open>read_graph\<close>. Each round reads two
  integers and adds one edge.
\<close>

function read_graph_loop :: "graph_raw \<Rightarrow> string \<Rightarrow> error + graph_raw" where
  "read_graph_loop graph text =
     (if length text > 0
      then (let (src_node, text1) = read_int text;
                (dst_node, text2) = read_int text1
            in case add_edge graph (numeric_id_t (Some (unat src_node)))
                      (numeric_id_t (Some (unat dst_node))) of
                 Inl e \<Rightarrow> Inl e
               | Inr graph' \<Rightarrow> read_graph_loop graph' text2)
      else Inr graph)"
  by pat_completeness auto
termination
  apply (relation "measure (\<lambda>(graph, s). length s)")
   apply simp
  apply clarsimp
  subgoal for graph s a b c d e
    using read_int_rest_shorter [of s] read_int_rest_le [of b]
    apply (cases s)
     apply simp
    apply (metis snd_conv le_less_trans)
    done
  done

declare read_graph_loop.simps [simp del]

text \<open>
  \<open>graph_t\<close> is \<open>graph_raw<max_graph_nodes, max_graph_edges>\<close>; both template arguments
  are computed from the input text and are parameters of every function that constructs a
  \<open>graph_t\<close> or an array of \<open>max_graph_nodes\<close> elements.
\<close>

definition read_graph :: "nat \<Rightarrow> nat \<Rightarrow> string \<Rightarrow> error + graph_raw" where
  "read_graph max_graph_nodes max_graph_edges text =
     (let (num_nodes, text1) = read_int text
      in case graph_raw_new max_graph_nodes max_graph_edges (unat num_nodes) of
           Inl e \<Rightarrow> Inl e
         | Inr graph \<Rightarrow> read_graph_loop graph text1)"

section \<open>Doubling the edges\<close>

lemma alloc_edge_ok:
  "alloc_edge pool node next = (Inr i, pool') \<Longrightarrow>
     next_available pool < length (edge_memory pool) \<and>
     next_available pool' = Suc (next_available pool) \<and>
     length (edge_memory pool') = length (edge_memory pool)"
  by (auto simp: alloc_edge_def Let_def split: if_splits)

lemma add_edge_ok:
  "add_edge graph s d = Inr graph' \<Longrightarrow>
     next_available (edges graph) < length (edge_memory (edges graph)) \<and>
     next_available (edges graph') = Suc (next_available (edges graph)) \<and>
     length (edge_memory (edges graph')) = length (edge_memory (edges graph))"
  by (auto simp: add_edge_def Let_def split: sum.splits prod.splits dest: alloc_edge_ok)

text \<open>
  The inner loop of \<open>double_up_edges\<close> walks one edge list of \<open>graph\<close> and adds two
  edges to \<open>new_graph\<close> per step. \<open>graph\<close> is a by-value \<open>const\<close> parameter: it is
  only read. The loop returns on every input, since each round that does not fail takes two
  slots of the bounded edge pool of \<open>new_graph\<close>.
\<close>

function double_up_edges_fanout ::
  "graph_raw \<Rightarrow> graph_raw \<Rightarrow> node_id_t \<Rightarrow> optional_edge_id_t \<Rightarrow> error + graph_raw" where
  "double_up_edges_fanout graph new_graph node_idx edge_idx =
     (case edge_idx of
        None \<Rightarrow> Inr new_graph
      | Some e \<Rightarrow>
         (case dst_node graph e of
            Inl err \<Rightarrow> Inl err
          | Inr dst \<Rightarrow>
             (case add_edge new_graph node_idx dst of
                Inl err \<Rightarrow> Inl err
              | Inr new_graph1 \<Rightarrow>
                 (case add_edge new_graph1 dst node_idx of
                    Inl err \<Rightarrow> Inl err
                  | Inr new_graph2 \<Rightarrow>
                     (case next_edge graph e of
                        Inl err \<Rightarrow> Inl err
                      | Inr edge_idx' \<Rightarrow>
                          double_up_edges_fanout graph new_graph2 node_idx edge_idx')))))"
  by pat_completeness auto
termination
  apply (relation "measure (\<lambda>(graph, new_graph, node_idx, edge_idx).
            length (edge_memory (edges new_graph)) - next_available (edges new_graph))")
   apply simp
  apply clarsimp
  subgoal for graph new_graph node_idx e dst g1 g2 nxt
    using add_edge_ok [of new_graph node_idx dst g1] add_edge_ok [of g1 dst node_idx g2]
    by arith
  done

declare double_up_edges_fanout.simps [simp del]

text \<open>The outer loop \<open>for (size_t i = 0; i < orig_nodes; ++i)\<close>.\<close>

function double_up_edges_nodes :: "graph_raw \<Rightarrow> graph_raw \<Rightarrow> nat \<Rightarrow> error + graph_raw" where
  "double_up_edges_nodes graph new_graph i =
     (if i < get_num_nodes graph
      then (let node_idx = numeric_id_t (Some i)
            in case first_edge graph node_idx of
                 Inl err \<Rightarrow> Inl err
               | Inr edge_idx \<Rightarrow>
                  (case double_up_edges_fanout graph new_graph node_idx edge_idx of
                     Inl err \<Rightarrow> Inl err
                   | Inr new_graph' \<Rightarrow> double_up_edges_nodes graph new_graph' (i + 1)))
      else Inr new_graph)"
  by pat_completeness auto
termination
  by (relation "measure (\<lambda>(graph, new_graph, i). get_num_nodes graph - i)") auto

declare double_up_edges_nodes.simps [simp del]

definition double_up_edges :: "nat \<Rightarrow> nat \<Rightarrow> graph_raw \<Rightarrow> error + graph_raw" where
  "double_up_edges max_graph_nodes max_graph_edges graph =
     (let orig_nodes = get_num_nodes graph
      in case graph_raw_new max_graph_nodes max_graph_edges orig_nodes of
           Inl err \<Rightarrow> Inl err
         | Inr new_graph \<Rightarrow> double_up_edges_nodes graph new_graph 0)"

section \<open>Counting connected subgraphs\<close>

text \<open>
  \<open>mark_connected\<close> recurses through the graph and its loop follows an edge list; on an
  ill-formed edge pool it need not return. The model takes fuel, one unit per call and per
  loop round, and \<open>None\<close> is fuel that ran out. The \<open>visited\<close> array is passed by
  reference in the source and is returned here. \<open>color\<close> is an \<open>int\<close>; it never exceeds
  the number of nodes, and the theorems are stated for fewer than \<open>2 ^ 31\<close> nodes.
\<close>

fun mark_connected ::
  "nat \<Rightarrow> graph_raw \<Rightarrow> node_id_t \<Rightarrow> int list \<Rightarrow> int \<Rightarrow> (error + int list) option"
and mark_connected_fanout ::
  "nat \<Rightarrow> graph_raw \<Rightarrow> optional_edge_id_t \<Rightarrow> int list \<Rightarrow> int \<Rightarrow> (error + int list) option"
where
  "mark_connected 0 graph node_idx visited color = None"
| "mark_connected (Suc fuel) graph node_idx visited color =
     (case id_value node_idx of
        Inl err \<Rightarrow> Some (Inl err)
      | Inr n \<Rightarrow>
         (if n < length visited
          then (case first_edge graph node_idx of
                  Inl err \<Rightarrow> Some (Inl err)
                | Inr edge_idx \<Rightarrow>
                    mark_connected_fanout fuel graph edge_idx (visited[n := color]) color)
          else Some (Inl out_of_range)))"
| "mark_connected_fanout 0 graph edge_idx visited color = None"
| "mark_connected_fanout (Suc fuel) graph edge_idx visited color =
     (case edge_idx of
        None \<Rightarrow> Some (Inr visited)
      | Some e \<Rightarrow>
         (case dst_node graph e of
            Inl err \<Rightarrow> Some (Inl err)
          | Inr dst \<Rightarrow>
             (case id_value dst of
                Inl err \<Rightarrow> Some (Inl err)
              | Inr d \<Rightarrow>
                 (case array_at visited d of
                    Inl err \<Rightarrow> Some (Inl err)
                  | Inr seen \<Rightarrow>
                     (case (if seen = - 1
                            then mark_connected fuel graph dst visited color
                            else Some (Inr visited)) of
                        None \<Rightarrow> None
                      | Some (Inl err) \<Rightarrow> Some (Inl err)
                      | Some (Inr visited') \<Rightarrow>
                         (case next_edge graph e of
                            Inl err \<Rightarrow> Some (Inl err)
                          | Inr edge_idx' \<Rightarrow>
                              mark_connected_fanout fuel graph edge_idx' visited' color))))))"

text \<open>The loop of \<open>count_connected\<close> over the node indices.\<close>

function count_connected_loop ::
  "nat \<Rightarrow> graph_raw \<Rightarrow> nat \<Rightarrow> int list \<Rightarrow> int \<Rightarrow> (error + int) option" where
  "count_connected_loop fuel graph i visited color =
     (if i < get_num_nodes graph
      then (let node_idx = numeric_id_t (Some i)
            in case array_at visited i of
                 Inl err \<Rightarrow> Some (Inl err)
               | Inr seen \<Rightarrow>
                  (if seen = - 1
                   then (case mark_connected fuel graph node_idx visited color of
                           None \<Rightarrow> None
                         | Some (Inl err) \<Rightarrow> Some (Inl err)
                         | Some (Inr visited') \<Rightarrow>
                             count_connected_loop fuel graph (i + 1) visited' (color + 1))
                   else count_connected_loop fuel graph (i + 1) visited color))
      else Some (Inr color))"
  by pat_completeness auto
termination
  by (relation "measure (\<lambda>(fuel, graph, i, visited, color). get_num_nodes graph - i)") auto

declare count_connected_loop.simps [simp del]

definition count_connected :: "nat \<Rightarrow> nat \<Rightarrow> graph_raw \<Rightarrow> (error + int) option" where
  "count_connected fuel max_graph_nodes graph =
     count_connected_loop fuel graph 0 (replicate max_graph_nodes (- 1)) 0"

text \<open>
  The compile-time constants and the chain of \<open>constexpr\<close> definitions that ends in
  \<open>connected_subgraphs\<close>, the value that \<open>main\<close> prints.
\<close>

definition max_graph_nodes :: "string \<Rightarrow> nat" where
  "max_graph_nodes graph_text = unat (read_int_v graph_text)"

definition max_graph_edges :: "string \<Rightarrow> nat" where
  "max_graph_edges graph_text = nat (count_words graph_text)"

definition connected_subgraphs :: "nat \<Rightarrow> string \<Rightarrow> (error + int) option" where
  "connected_subgraphs fuel graph_text =
     (case read_graph (max_graph_nodes graph_text) (max_graph_edges graph_text) graph_text of
        Inl err \<Rightarrow> Some (Inl err)
      | Inr graph \<Rightarrow>
         (case double_up_edges (max_graph_nodes graph_text) (max_graph_edges graph_text) graph of
            Inl err \<Rightarrow> Some (Inl err)
          | Inr bidir_graph \<Rightarrow>
              count_connected fuel (max_graph_nodes graph_text) bidir_graph))"

section \<open>Edge lists as seen through the pool\<close>

text \<open>
  \<open>edge_list pool first row\<close>: starting from \<open>first\<close>, the links of the pool lead
  through allocated edges whose destinations and identifiers are the entries of \<open>row\<close>,
  and end in an empty link.
\<close>

fun edge_list :: "edge_storage_t \<Rightarrow> optional_edge_id_t \<Rightarrow> (nat \<times> nat) list \<Rightarrow> bool" where
  "edge_list pool None row = (row = [])"
| "edge_list pool (Some e) [] = False"
| "edge_list pool (Some e) ((d, i) # row) =
     (e = numeric_id_t (Some i) \<and> i < next_available pool \<and> i < length (edge_memory pool) \<and>
      edge_dst_node (edge_memory pool ! i) = numeric_id_t (Some d) \<and>
      edge_list pool (edge_next_edge (edge_memory pool ! i)) row)"

text \<open>
  A graph is well formed for the rows \<open>rows\<close> when the used nodes carry their index, the
  pool counter is within the pool, and every node's edge list is \<open>rows n\<close>.
\<close>

definition graph_rows :: "graph_raw \<Rightarrow> (nat \<Rightarrow> (nat \<times> nat) list) \<Rightarrow> bool" where
  "graph_rows graph rows \<longleftrightarrow>
     used_nodes graph \<le> length (nodes graph) \<and>
     next_available (edges graph) \<le> length (edge_memory (edges graph)) \<and>
     (\<forall>n < used_nodes graph. node_id (nodes graph ! n) = numeric_id_t (Some n)) \<and>
     (\<forall>n < length (nodes graph).
        edge_list (edges graph) (edge_begin_id (nodes graph ! n)) (rows n))"

lemma edge_list_alloc:
  assumes "edge_list pool e row" and "alloc_edge pool node nxt = (Inr k, pool')"
  shows "edge_list pool' e row"
  using assms
proof (induction pool e row rule: edge_list.induct)
  case (1 pool row)
  then show ?case by simp
next
  case (2 pool e)
  then show ?case by simp
next
  case (3 pool e d i row)
  from "3.prems"(2) have p': "pool' = pool\<lparr>next_available := next_available pool + 1,
      edge_memory := (edge_memory pool)[next_available pool :=
        \<lparr>edge_dst_node = node, edge_next_edge = nxt\<rparr>]\<rparr>"
    by (auto simp: alloc_edge_def Let_def split: if_splits)
  from "3.prems"(1) have i: "i < next_available pool" by simp
  have "edge_list pool' (edge_next_edge (edge_memory pool ! i)) row"
    using 3 by simp
  then show ?case
    using "3.prems"(1) i by (simp add: p')
qed

lemma graph_raw_new_rows:
  assumes "graph_raw_new max_nodes max_edges n = Inr graph"
  shows "graph_rows graph (\<lambda>v. []) \<and> used_nodes graph = n \<and> length (nodes graph) = max_nodes
     \<and> length (edge_memory (edges graph)) = max_edges \<and> next_available (edges graph) = 0"
proof -
  have len: "length (fold (\<lambda>idx ns. ns[idx := node_of_id idx]) xs ns) = length ns"
    for xs and ns :: "node_t list"
    by (induction xs arbitrary: ns) auto
  have nth: "(fold (\<lambda>idx ns. ns[idx := node_of_id idx]) [0..<k] ns) ! v
      = (if v < k then node_of_id v else ns ! v)"
    if "k \<le> length ns" "v < length ns" for k v and ns :: "node_t list"
    using that by (induction k) (auto simp: len nth_list_update less_Suc_eq)
  from assms have le: "n \<le> max_nodes"
    by (auto simp: graph_raw_new_def split: if_splits)
  from assms have g: "graph = \<lparr>used_nodes = n,
                nodes = fold (\<lambda>idx ns. ns[idx := node_of_id idx]) [0..<n]
                          (replicate max_nodes node_default),
                edges = \<lparr>edge_memory = replicate max_edges edge_default, next_available = 0\<rparr>\<rparr>"
    by (auto simp: graph_raw_new_def split: if_splits)
  have eb: "edge_begin_id (node_of_id v) = None" "edge_begin_id node_default = None" for v
    by (simp_all add: node_of_id_def node_default_def)
  have ni: "v < n \<Longrightarrow> node_id (node_of_id v) = numeric_id_t (Some v)" for v
    by (simp add: node_of_id_def)
  show ?thesis
    using le by (simp add: g graph_rows_def len nth eb ni)
qed

lemma add_edge_rows:
  assumes "graph_rows graph rows" and "s < length (nodes graph)"
    and "next_available (edges graph) < length (edge_memory (edges graph))"
  shows "\<exists>graph'. add_edge graph (numeric_id_t (Some s)) (numeric_id_t (Some d)) = Inr graph'
     \<and> graph_rows graph' (rows(s := (d, next_available (edges graph)) # rows s))
     \<and> used_nodes graph' = used_nodes graph
     \<and> length (nodes graph') = length (nodes graph)
     \<and> length (edge_memory (edges graph')) = length (edge_memory (edges graph))
     \<and> next_available (edges graph') = Suc (next_available (edges graph))"
proof -
  let ?k = "next_available (edges graph)"
  let ?node = "nodes graph ! s"
  obtain pool' where al: "alloc_edge (edges graph) (numeric_id_t (Some d)) (edge_begin_id ?node)
      = (Inr (numeric_id_t (Some ?k)), pool')"
    and p': "pool' = (edges graph)\<lparr>next_available := ?k + 1,
      edge_memory := (edge_memory (edges graph))[?k :=
        \<lparr>edge_dst_node = numeric_id_t (Some d), edge_next_edge = edge_begin_id ?node\<rparr>]\<rparr>"
    using assms(3) by (simp add: alloc_edge_def Let_def)
  let ?g' = "graph\<lparr>edges := pool',
      nodes := (nodes graph)[s := ?node\<lparr>edge_begin_id := Some (numeric_id_t (Some ?k))\<rparr>]\<rparr>"
  have eq: "add_edge graph (numeric_id_t (Some s)) (numeric_id_t (Some d)) = Inr ?g'"
    using assms(2) al by (simp add: add_edge_def array_at_def Let_def)
  have old: "edge_list pool' (edge_begin_id (nodes graph ! n)) (rows n)"
    if "n < length (nodes graph)" for n
    using assms(1) that edge_list_alloc [OF _ al] by (simp add: graph_rows_def)
  have new: "edge_list pool' (Some (numeric_id_t (Some ?k))) ((d, ?k) # rows s)"
    using old [OF assms(2)] assms(3) by (simp add: p')
  have nodes': "nodes ?g' = (nodes graph)[s := ?node\<lparr>edge_begin_id := Some (numeric_id_t (Some ?k))\<rparr>]"
    and edges': "edges ?g' = pool'" and used': "used_nodes ?g' = used_nodes graph"
    by simp_all
  have na': "next_available pool' = Suc ?k"
    and len': "length (edge_memory pool') = length (edge_memory (edges graph))"
    by (simp_all add: p')
  have ids: "node_id (nodes ?g' ! n) = numeric_id_t (Some n)" if "n < used_nodes graph" for n
  proof -
    from that assms(1) have "n < length (nodes graph)"
      and "node_id (nodes graph ! n) = numeric_id_t (Some n)"
      by (simp_all add: graph_rows_def)
    then show ?thesis
      unfolding nodes' by (cases "n = s") simp_all
  qed
  have lists: "edge_list (edges ?g') (edge_begin_id (nodes ?g' ! n))
      ((rows(s := (d, ?k) # rows s)) n)" if "n < length (nodes graph)" for n
    unfolding nodes' edges'
    using that old [OF that] new by (cases "n = s") simp_all
  have "graph_rows ?g' (rows(s := (d, ?k) # rows s))"
    unfolding graph_rows_def used' edges' na' len'
    using assms(1,3) ids lists by (simp add: graph_rows_def)
  then show ?thesis
    unfolding eq using used' na' len' edges' nodes' by (metis sum.inject(2) length_list_update)
qed

section \<open>Sequences of insertions\<close>

text \<open>A sequence of \<open>add_edge\<close> calls, one per (source, destination) pair, in order.\<close>

fun add_edges :: "graph_raw \<Rightarrow> (nat \<times> nat) list \<Rightarrow> error + graph_raw" where
  "add_edges graph [] = Inr graph"
| "add_edges graph ((s, d) # ps) =
     (case add_edge graph (numeric_id_t (Some s)) (numeric_id_t (Some d)) of
        Inl e \<Rightarrow> Inl e
      | Inr graph' \<Rightarrow> add_edges graph' ps)"

text \<open>The rows after a sequence of insertions, the first of which takes pool slot \<open>k\<close>.\<close>

fun rows_after ::
  "nat \<Rightarrow> (nat \<Rightarrow> (nat \<times> nat) list) \<Rightarrow> (nat \<times> nat) list \<Rightarrow> nat \<Rightarrow> (nat \<times> nat) list" where
  "rows_after k rows [] = rows"
| "rows_after k rows ((s, d) # ps) = rows_after (Suc k) (rows(s := (d, k) # rows s)) ps"

lemma add_edge_Inr_bounds:
  assumes "add_edge graph (numeric_id_t (Some s)) dst = Inr graph'"
  shows "s < length (nodes graph)"
    and "next_available (edges graph) < length (edge_memory (edges graph))"
  using assms
  by (auto simp: add_edge_def array_at_def alloc_edge_def Let_def
      split: if_splits sum.splits prod.splits)

lemma add_edges_rows:
  assumes "graph_rows graph rows" and "add_edges graph ps = Inr graph'"
  shows "graph_rows graph' (rows_after (next_available (edges graph)) rows ps)
     \<and> used_nodes graph' = used_nodes graph
     \<and> length (nodes graph') = length (nodes graph)
     \<and> length (edge_memory (edges graph')) = length (edge_memory (edges graph))
     \<and> next_available (edges graph') = next_available (edges graph) + length ps"
  using assms
proof (induction ps arbitrary: graph rows)
  case Nil
  then show ?case by simp
next
  case (Cons p ps)
  obtain s d where p: "p = (s, d)" by (cases p)
  from Cons.prems(2) obtain g1 where
    g1: "add_edge graph (numeric_id_t (Some s)) (numeric_id_t (Some d)) = Inr g1"
    and rest: "add_edges g1 ps = Inr graph'"
    by (auto simp: p split: sum.splits)
  note b = add_edge_Inr_bounds [OF g1]
  from add_edge_rows [OF Cons.prems(1) b, of d] g1
  have r1: "graph_rows g1 (rows(s := (d, next_available (edges graph)) # rows s))"
    and k1: "used_nodes g1 = used_nodes graph" "length (nodes g1) = length (nodes graph)"
      "length (edge_memory (edges g1)) = length (edge_memory (edges graph))"
      "next_available (edges g1) = Suc (next_available (edges graph))"
    by auto
  from Cons.IH [OF r1 rest] show ?case
    unfolding p rows_after.simps k1 by (simp only: length_Cons add_Suc_right add_Suc)
qed

lemma add_edges_succeeds:
  assumes "graph_rows graph rows"
    and "\<forall>p \<in> set ps. fst p < length (nodes graph)"
    and "next_available (edges graph) + length ps \<le> length (edge_memory (edges graph))"
  shows "\<exists>graph'. add_edges graph ps = Inr graph'"
  using assms
proof (induction ps arbitrary: graph rows)
  case Nil
  then show ?case by simp
next
  case (Cons p ps)
  obtain s d where p: "p = (s, d)" by (cases p)
  have s: "s < length (nodes graph)"
    and k: "next_available (edges graph) < length (edge_memory (edges graph))"
    using Cons.prems(2,3) by (auto simp: p)
  from add_edge_rows [OF Cons.prems(1) s k, of d] obtain g1 where
    g1: "add_edge graph (numeric_id_t (Some s)) (numeric_id_t (Some d)) = Inr g1"
    and r1: "graph_rows g1 (rows(s := (d, next_available (edges graph)) # rows s))"
    and k1: "length (nodes g1) = length (nodes graph)"
      "length (edge_memory (edges g1)) = length (edge_memory (edges graph))"
      "next_available (edges g1) = Suc (next_available (edges graph))"
    by auto
  have "\<exists>graph'. add_edges g1 ps = Inr graph'"
    using Cons.prems(2,3) by (intro Cons.IH [OF r1]) (auto simp: k1)
  then show ?case by (simp add: p g1)
qed

lemma rows_after_dsts:
  "map fst (rows_after k rows ps v)
     = rev (map snd (filter (\<lambda>p. fst p = v) ps)) @ map fst (rows v)"
proof (induction ps arbitrary: k rows)
  case Nil
  show ?case by simp
next
  case (Cons p ps)
  obtain s d where p: "p = (s, d)" by (cases p)
  show ?case
    unfolding p rows_after.simps Cons.IH by simp
qed

lemma rows_after_length:
  "length (rows_after k rows ps v) = length (filter (\<lambda>p. fst p = v) ps) + length (rows v)"
  using arg_cong [OF rows_after_dsts [of k rows ps v], of length] by simp

lemma print_edges_row:
  assumes "edge_list (edges graph) e row" and "length row < fuel"
  shows "print_edges fuel graph e = Some (Inr row)"
  using assms
proof (induction row arbitrary: e fuel)
  case Nil
  then obtain f where "fuel = Suc f" by (cases fuel) auto
  moreover from Nil have "e = None" by (cases e) auto
  ultimately show ?case by simp
next
  case (Cons x row)
  obtain d i where x: "x = (d, i)" by (cases x)
  from Cons.prems(2) obtain f where f: "fuel = Suc f" "length row < f" by (cases fuel) auto
  from Cons.prems(1) have e: "e = Some (numeric_id_t (Some i))"
    and i: "i < length (edge_memory (edges graph))"
    and dst: "edge_dst_node (edge_memory (edges graph) ! i) = numeric_id_t (Some d)"
    and nxt: "edge_list (edges graph) (edge_next_edge (edge_memory (edges graph) ! i)) row"
    by (cases e; simp add: x)+
  from Cons.IH [OF nxt f(2)] show ?case
    by (simp add: f e get_edge_def array_at_def i dst x)
qed

text \<open>
  C4. Starting from a freshly constructed graph, after any sequence of successful
  insertions the walk over the edge list of a node \<open>s\<close> meets the destinations of the
  edges inserted from \<open>s\<close> in the reverse of their insertion order.
\<close>

theorem adjacency_order_reversed:
  assumes "graph_raw_new max_nodes max_edges n = Inr graph0"
    and "add_edges graph0 ps = Inr graph"
    and "s < max_nodes"
  shows "\<exists>first row. first_edge graph (numeric_id_t (Some s)) = Inr first
     \<and> print_edges (Suc (length ps)) graph first = Some (Inr row)
     \<and> map fst row = rev (map snd (filter (\<lambda>p. fst p = s) ps))"
proof -
  from graph_raw_new_rows [OF assms(1)] have r0: "graph_rows graph0 (\<lambda>v. [])"
    and l0: "length (nodes graph0) = max_nodes" and k0: "next_available (edges graph0) = 0"
    by simp_all
  let ?rows = "rows_after 0 (\<lambda>v. []) ps"
  from add_edges_rows [OF r0 assms(2)] have r: "graph_rows graph ?rows"
    and l: "length (nodes graph) = max_nodes"
    by (simp_all add: k0 l0)
  let ?first = "edge_begin_id (nodes graph ! s)"
  have f: "first_edge graph (numeric_id_t (Some s)) = Inr ?first"
    using assms(3) l by (simp add: first_edge_def array_at_def)
  have el: "edge_list (edges graph) ?first (?rows s)"
    using r assms(3) l by (simp add: graph_rows_def)
  have "length (?rows s) < Suc (length ps)"
    by (simp add: rows_after_length less_Suc_eq_le)
  from print_edges_row [OF el this]
  show ?thesis
    using f by (simp add: rows_after_dsts)
qed

theorem adjacency_order_reversed_witness:
  "\<exists>graph0 graph. graph_raw_new 3 4 3 = Inr graph0
     \<and> add_edges graph0 [(1, 0), (1, 2)] = Inr graph
     \<and> (\<exists>first row. first_edge graph (numeric_id_t (Some 1)) = Inr first
          \<and> print_edges (Suc (length [(1, 0), (1, 2 :: nat)])) graph first = Some (Inr row)
          \<and> map fst row = [2, 0])"
proof -
  obtain graph0 where g0: "graph_raw_new 3 4 3 = Inr graph0"
    by (simp add: graph_raw_new_def)
  have r0: "graph_rows graph0 (\<lambda>v. [])" and l0: "length (nodes graph0) = 3"
    and m0: "length (edge_memory (edges graph0)) = 4" and k0: "next_available (edges graph0) = 0"
    using graph_raw_new_rows [OF g0] by simp_all
  obtain graph where g: "add_edges graph0 [(1, 0), (1, 2)] = Inr graph"
    using add_edges_succeeds [OF r0, of "[(1, 0), (1, 2)]"] by (auto simp: l0 m0 k0)
  from adjacency_order_reversed [OF g0 g, of 1]
  show ?thesis using g0 g by simp
qed

section \<open>The edge pool counter\<close>

lemma alloc_edge_cases:
  "alloc_edge pool node nxt =
     (if next_available pool < length (edge_memory pool)
      then (Inr (numeric_id_t (Some (next_available pool))),
            pool\<lparr>next_available := Suc (next_available pool),
                 edge_memory := (edge_memory pool)[next_available pool :=
                   \<lparr>edge_dst_node = node, edge_next_edge = nxt\<rparr>]\<rparr>)
      else (Inl out_of_range, pool\<lparr>next_available := Suc (next_available pool)\<rparr>))"
  by (simp add: alloc_edge_def Let_def)

text \<open>
  C8, as the claim states it, fails: in a pool of one edge the second allocation is
  refused with \<open>out_of_range\<close>, and the counter is 2 after it.
\<close>

theorem alloc_edge_counter_passes_capacity:
  "fst (alloc_edge \<lparr>edge_memory = [edge_default], next_available = 0\<rparr>
          (numeric_id_t (Some 0)) None) = Inr (numeric_id_t (Some 0))
   \<and> fst (alloc_edge (snd (alloc_edge \<lparr>edge_memory = [edge_default], next_available = 0\<rparr>
          (numeric_id_t (Some 0)) None)) (numeric_id_t (Some 0)) None) = Inl out_of_range
   \<and> \<not> next_available (snd (alloc_edge (snd (alloc_edge
          \<lparr>edge_memory = [edge_default], next_available = 0\<rparr>
          (numeric_id_t (Some 0)) None)) (numeric_id_t (Some 0)) None))
        \<le> length (edge_memory (snd (alloc_edge (snd (alloc_edge
          \<lparr>edge_memory = [edge_default], next_available = 0\<rparr>
          (numeric_id_t (Some 0)) None)) (numeric_id_t (Some 0)) None)))"
  by (simp add: alloc_edge_cases)

text \<open>
  C8, amended. In a pool with \<open>next_available \<le> max_edges\<close> (a freshly constructed
  pool has \<open>next_available = 0\<close>, see \<open>graph_raw_new_rows\<close>), an allocation that
  succeeds returns the old counter as the edge identifier, writes that slot only and keeps
  \<open>next_available \<le> max_edges\<close>; an allocation that does not succeed is the one
  attempted at \<open>next_available = max_edges\<close>, it fails with \<open>out_of_range\<close> and
  leaves every edge record as it was.
\<close>

theorem alloc_edge_within_capacity:
  assumes "next_available pool \<le> length (edge_memory pool)"
    and "alloc_edge pool node nxt = (result, pool')"
  shows "length (edge_memory pool') = length (edge_memory pool)
     \<and> (case result of
          Inr new_edge \<Rightarrow>
            new_edge = numeric_id_t (Some (next_available pool))
            \<and> next_available pool < length (edge_memory pool)
            \<and> next_available pool' = next_available pool + 1
            \<and> next_available pool' \<le> length (edge_memory pool')
            \<and> edge_memory pool' = (edge_memory pool)[next_available pool :=
                  \<lparr>edge_dst_node = node, edge_next_edge = nxt\<rparr>]
        | Inl err \<Rightarrow>
            err = out_of_range
            \<and> next_available pool = length (edge_memory pool)
            \<and> edge_memory pool' = edge_memory pool)"
  using assms by (auto simp: alloc_edge_cases split: if_splits)

theorem alloc_edge_within_capacity_witness:
  "length (edge_memory (snd (alloc_edge \<lparr>edge_memory = [edge_default, edge_default],
       next_available = 1\<rparr> (numeric_id_t (Some 7)) None))) = 2
   \<and> fst (alloc_edge \<lparr>edge_memory = [edge_default, edge_default],
       next_available = 1\<rparr> (numeric_id_t (Some 7)) None) = Inr (numeric_id_t (Some 1))
   \<and> next_available (snd (alloc_edge \<lparr>edge_memory = [edge_default, edge_default],
       next_available = 1\<rparr> (numeric_id_t (Some 7)) None)) = 2
   \<and> edge_memory (snd (alloc_edge \<lparr>edge_memory = [edge_default, edge_default],
       next_available = 1\<rparr> (numeric_id_t (Some 7)) None))
       = [edge_default, \<lparr>edge_dst_node = numeric_id_t (Some 7), edge_next_edge = None\<rparr>]"
  using alloc_edge_within_capacity [of "\<lparr>edge_memory = [edge_default, edge_default],
       next_available = 1\<rparr>" "numeric_id_t (Some 7)" None
       "fst (alloc_edge \<lparr>edge_memory = [edge_default, edge_default],
       next_available = 1\<rparr> (numeric_id_t (Some 7)) None)"
       "snd (alloc_edge \<lparr>edge_memory = [edge_default, edge_default],
       next_available = 1\<rparr> (numeric_id_t (Some 7)) None)"]
  by (simp add: alloc_edge_cases)

section \<open>Well-formed graph texts\<close>

text \<open>
  A number is a nonempty string of decimal digits whose value fits \<open>size_t\<close>; a separator
  is a nonempty string of spaces and newlines. A well-formed text is the number of nodes,
  then for each edge a separator, the source, a separator and the destination, then
  possibly trailing whitespace. An edge is kept with its two separators:
  \<open>(sep1, source, sep2, destination)\<close>.
\<close>

definition is_number :: "string \<Rightarrow> bool" where
  "is_number token \<longleftrightarrow> token \<noteq> [] \<and> list_all is_digit token \<and> decimal token < 2 ^ 64"

definition is_separator :: "string \<Rightarrow> bool" where
  "is_separator ws \<longleftrightarrow> ws \<noteq> [] \<and> list_all is_whitespace ws"

type_synonym edge_text = "string \<times> string \<times> string \<times> string"

fun edges_text :: "edge_text list \<Rightarrow> string" where
  "edges_text [] = []"
| "edges_text ((sep1, src, sep2, dst) # rest) = sep1 @ src @ sep2 @ dst @ edges_text rest"

definition graph_text_of :: "string \<Rightarrow> edge_text list \<Rightarrow> string \<Rightarrow> string" where
  "graph_text_of count es trailing = count @ edges_text es @ trailing"

fun is_edge_text :: "nat \<Rightarrow> edge_text \<Rightarrow> bool" where
  "is_edge_text n (sep1, src, sep2, dst) \<longleftrightarrow>
     is_separator sep1 \<and> is_number src \<and> decimal src < n \<and>
     is_separator sep2 \<and> is_number dst \<and> decimal dst < n"

text \<open>
  The bounds \<open>2 ^ 31\<close> keep the \<open>int\<close> counters of \<open>count_words\<close> and
  \<open>count_connected\<close> in range.
\<close>

definition well_formed :: "string \<Rightarrow> edge_text list \<Rightarrow> string \<Rightarrow> bool" where
  "well_formed count es trailing \<longleftrightarrow>
     is_number count \<and> decimal count < 2 ^ 31 \<and>
     list_all (is_edge_text (decimal count)) es \<and>
     list_all is_whitespace trailing \<and>
     length (graph_text_of count es trailing) < 2 ^ 31"

text \<open>
  A text that starts with whitespace is not well formed: \<open>read_int\<close> reads the empty
  token in front of the whitespace, and the node count is 0.
\<close>

lemma leading_whitespace_node_count: "max_graph_nodes '' 4  0 1  2 3'' = 0"
  by (simp add: max_graph_nodes_def read_int_v_def read_non_whitespace_def read_whitespace_def
      read_generic_def is_non_whitespace_def remove_suffix_def remove_prefix_def view_to_int_def)

text \<open>The graph a well-formed text describes: the edges as pairs of node numbers.\<close>

fun edge_of :: "edge_text \<Rightarrow> nat \<times> nat" where
  "edge_of (sep1, src, sep2, dst) = (decimal src, decimal dst)"

subsection \<open>Scanning a well-formed text\<close>

lemma is_digit_non_whitespace: "is_digit c \<Longrightarrow> is_non_whitespace c"
  by (auto simp: is_digit_def is_non_whitespace_def)

lemma whitespace_iff: "is_whitespace c \<longleftrightarrow> \<not> is_non_whitespace c"
  by (simp add: is_whitespace_def is_non_whitespace_def)

lemma is_digit_char_to_size_t:
  assumes "is_digit c"
  shows "char_to_size_t c - 48 = of_nat (of_char c - 48)"
proof -
  from assms have "(48 :: nat) \<le> of_char c" "(of_char c :: nat) < 128"
    by (simp_all add: is_digit_def)
  then show ?thesis
    by (simp add: char_to_size_t_def)
qed

lemma accumulate_digits_foldl:
  assumes "list_all is_digit token"
  shows "foldl (\<lambda>v c. v * 10 + (char_to_size_t c - 48)) (of_nat k) token
     = (of_nat (foldl (\<lambda>v c. v * 10 + (of_char c - 48)) k token) :: size_t)"
  using assms
proof (induction token arbitrary: k)
  case Nil
  show ?case by simp
next
  case (Cons c cs)
  then have c: "is_digit c" and cs: "list_all is_digit cs" by simp_all
  have "of_nat k * 10 + (char_to_size_t c - 48) = (of_nat (k * 10 + (of_char c - 48)) :: size_t)"
    by (simp add: is_digit_char_to_size_t [OF c])
  then show ?case
    using Cons.IH [OF cs, of "k * 10 + (of_char c - 48)"] by simp
qed

lemma accumulate_digits_decimal:
  assumes "is_number token"
  shows "unat (accumulate_digits token) = decimal token"
proof -
  from assms have d: "list_all is_digit token" and b: "decimal token < 2 ^ 64"
    by (simp_all add: is_number_def)
  have "accumulate_digits token = of_nat (decimal token)"
    using accumulate_digits_foldl [OF d, of 0] by (simp add: accumulate_digits_def decimal_def)
  then show ?thesis
    using b by (simp add: unat_of_nat)
qed

lemma takeWhile_token:
  assumes "list_all P token" and "rest = [] \<or> \<not> P (hd rest)"
  shows "takeWhile P (token @ rest) = token" and "dropWhile P (token @ rest) = rest"
proof -
  have r: "takeWhile P rest = []" "dropWhile P rest = rest"
    using assms(2) by (cases rest; simp)+
  show "takeWhile P (token @ rest) = token" and "dropWhile P (token @ rest) = rest"
    using assms(1) by (induction token) (simp_all add: r)
qed

lemma read_int_number:
  assumes "is_number token" and "rest = [] \<or> is_whitespace (hd rest)"
  shows "read_int (token @ rest) = (of_nat (decimal token), dropWhile is_whitespace rest)"
    and "unat (fst (read_int (token @ rest))) = decimal token"
proof -
  from assms(1) have "list_all is_digit token" by (simp add: is_number_def)
  then have nw: "list_all is_non_whitespace token"
    by (simp add: list_all_iff is_digit_non_whitespace)
  from assms(2) have r: "rest = [] \<or> \<not> is_non_whitespace (hd rest)"
    by (simp add: whitespace_iff)
  have acc: "accumulate_digits token = of_nat (decimal token)"
    using accumulate_digits_foldl [OF \<open>list_all is_digit token\<close>, of 0]
    by (simp add: accumulate_digits_def decimal_def)
  show "read_int (token @ rest) = (of_nat (decimal token), dropWhile is_whitespace rest)"
    by (simp add: read_int_eq takeWhile_token [OF nw r] acc)
  show "unat (fst (read_int (token @ rest))) = decimal token"
    using accumulate_digits_decimal [OF assms(1)]
    by (simp add: read_int_eq takeWhile_token [OF nw r])
qed

lemma edges_text_start:
  assumes "list_all (is_edge_text n) es" and "list_all is_whitespace trailing"
  shows "edges_text es @ trailing = [] \<or> is_whitespace (hd (edges_text es @ trailing))"
proof (cases es)
  case Nil
  then show ?thesis using assms(2) by (cases trailing) auto
next
  case (Cons e rest)
  obtain sep1 src sep2 dst where e: "e = (sep1, src, sep2, dst)" by (cases e)
  from assms(1) have "is_separator sep1" by (simp add: Cons e)
  then show ?thesis
    by (cases sep1) (auto simp: Cons e is_separator_def)
qed

lemma dropWhile_separator:
  assumes "is_separator ws" and "is_number token"
  shows "dropWhile is_whitespace (ws @ token @ rest) = token @ rest"
proof -
  from assms(2) obtain c cs where t: "token = c # cs" and "is_digit c"
    by (cases token) (auto simp: is_number_def)
  then have "\<not> is_whitespace c"
    by (simp add: whitespace_iff is_digit_non_whitespace)
  then show ?thesis
    using assms(1) takeWhile_token(2) [of is_whitespace ws "token @ rest"]
    by (simp add: is_separator_def t)
qed

lemma dropWhile_trailing:
  "list_all is_whitespace trailing \<Longrightarrow> dropWhile is_whitespace trailing = []"
  by (simp add: list_all_iff)

subsection \<open>Counting the words of a well-formed text\<close>

lemma count_words_loop_whitespace:
  "list_all is_whitespace ws \<Longrightarrow>
     count_words_loop (ws @ rest) b k = count_words_loop rest (if ws = [] then b else False) k"
  by (induction ws arbitrary: b) (auto simp: is_whitespace_def Let_def)

lemma count_words_loop_in_word:
  "list_all is_non_whitespace w \<Longrightarrow>
     count_words_loop (w @ rest) True k = count_words_loop rest True k"
  by (induction w) (auto simp: is_non_whitespace_def Let_def)

lemma count_words_loop_word:
  assumes "list_all is_non_whitespace w" and "w \<noteq> []"
  shows "count_words_loop (w @ rest) False k = count_words_loop rest True (k + 1)"
proof -
  from assms obtain c cs where w: "w = c # cs" and c: "is_non_whitespace c"
    and cs: "list_all is_non_whitespace cs"
    by (cases w) auto
  from c have "c \<noteq> CHR '' ''" "c \<noteq> CHR 0x0A" by (auto simp: is_non_whitespace_def)
  then show ?thesis
    by (simp add: w Let_def count_words_loop_in_word [OF cs])
qed

lemma count_words_loop_number:
  assumes "is_number token"
  shows "count_words_loop (token @ rest) False k = count_words_loop rest True (k + 1)"
proof -
  from assms have "list_all is_non_whitespace token" "token \<noteq> []"
    by (simp_all add: is_number_def list_all_iff is_digit_non_whitespace)
  from count_words_loop_word [OF this] show ?thesis .
qed

lemma count_words_loop_separator:
  assumes "is_separator ws"
  shows "count_words_loop (ws @ rest) b k = count_words_loop rest False k"
  using assms count_words_loop_whitespace [of ws rest b k] by (simp add: is_separator_def)

lemma count_words_loop_edges:
  assumes "list_all (is_edge_text n) es" and "list_all is_whitespace trailing"
  shows "count_words_loop (edges_text es @ trailing) True k = k + 2 * int (length es)"
  using assms(1)
proof (induction es arbitrary: k)
  case Nil
  show ?case
    using count_words_loop_whitespace [OF assms(2), of "[]" True k] by simp
next
  case (Cons e es)
  obtain sep1 src sep2 dst where e: "e = (sep1, src, sep2, dst)" by (cases e)
  from Cons.prems have s1: "is_separator sep1" and n1: "is_number src"
    and s2: "is_separator sep2" and n2: "is_number dst" and rest: "list_all (is_edge_text n) es"
    by (simp_all add: e)
  show ?case
    by (simp add: e count_words_loop_separator [OF s1] count_words_loop_number [OF n1]
        count_words_loop_separator [OF s2] count_words_loop_number [OF n2] Cons.IH [OF rest])
qed

lemma count_words_well_formed:
  assumes "well_formed count es trailing"
  shows "count_words (graph_text_of count es trailing) = 2 * int (length es) + 1"
proof -
  from assms have n: "is_number count" and e: "list_all (is_edge_text (decimal count)) es"
    and t: "list_all is_whitespace trailing"
    by (simp_all add: well_formed_def)
  show ?thesis
    by (simp add: count_words_def graph_text_of_def count_words_loop_number [OF n]
        count_words_loop_edges [OF e t])
qed

lemma max_graph_edges_word_count_aux:
  assumes "well_formed count es trailing"
  shows "max_graph_edges (graph_text_of count es trailing) = 2 * length es + 1"
  using count_words_well_formed [OF assms] by (simp add: max_graph_edges_def)

text \<open>
  C2, as the claim states it, fails: the text \<open>4  0 1  2 3\<close> has two edge pairs after the
  node count, and the capacity of the edge pool computed from it is 5.
\<close>

theorem max_graph_edges_not_pair_count:
  "max_graph_edges ''4  0 1  2 3'' = 5
   \<and> ''4  0 1  2 3'' = graph_text_of ''4'' [(''  '', ''0'', '' '', ''1''), (''  '', ''2'', '' '', ''3'')] []
   \<and> max_graph_edges ''4  0 1  2 3''
      \<noteq> length [(''  '', ''0'', '' '', ''1''), (''  '', ''2'', '' '', ''3'')]"
  by (simp add: max_graph_edges_def count_words_def graph_text_of_def Let_def)

text \<open>
  C2, amended. The capacity of the edge pool is a compile-time constant computed from the
  text alone: the word count of the whole text, the node count included, with no
  division. For a well-formed text with \<open>M\<close> edge pairs it is \<open>2 * M + 1\<close>.
\<close>

theorem max_graph_edges_word_count:
  assumes "well_formed count es trailing"
  shows "max_graph_edges (graph_text_of count es trailing)
           = nat (count_words (graph_text_of count es trailing))
     \<and> max_graph_edges (graph_text_of count es trailing) = 2 * length es + 1"
  using count_words_well_formed [OF assms] by (simp add: max_graph_edges_def)

lemma well_formed_example:
  "well_formed ''4'' [(''  '', ''0'', '' '', ''1''), (''  '', ''2'', '' '', ''3'')] []"
  by (simp add: well_formed_def is_number_def is_separator_def is_digit_def decimal_def
      is_whitespace_def graph_text_of_def)

theorem max_graph_edges_word_count_witness:
  "max_graph_edges ''4  0 1  2 3'' = nat (count_words ''4  0 1  2 3'')
   \<and> max_graph_edges ''4  0 1  2 3'' = 5"
  using max_graph_edges_word_count [OF well_formed_example]
  by (simp add: graph_text_of_def)

section \<open>Reading a well-formed text\<close>

lemma read_int_v_eq: "read_int_v input = fst (read_int input)"
  by (simp add: read_int_v_def read_int_def split: prod.splits)

lemma read_graph_loop_edges:
  assumes "list_all (is_edge_text n) es" and "list_all is_whitespace trailing"
  shows "read_graph_loop graph (dropWhile is_whitespace (edges_text es @ trailing))
     = add_edges graph (map edge_of es)"
  using assms(1)
proof (induction es arbitrary: graph)
  case Nil
  show ?case
    by (subst read_graph_loop.simps) (simp add: dropWhile_trailing [OF assms(2)])
next
  case (Cons e es)
  obtain sep1 src sep2 dst where e: "e = (sep1, src, sep2, dst)" by (cases e)
  from Cons.prems have s1: "is_separator sep1" and n1: "is_number src"
    and s2: "is_separator sep2" and n2: "is_number dst" and rest: "list_all (is_edge_text n) es"
    by (simp_all add: e)
  let ?R = "edges_text es @ trailing"
  have start: "dropWhile is_whitespace (edges_text (e # es) @ trailing) = src @ sep2 @ dst @ ?R"
    using dropWhile_separator [OF s1 n1, of "sep2 @ dst @ ?R"] by (simp add: e)
  from n1 obtain c cs where "src = c # cs" by (cases src) (auto simp: is_number_def)
  then have nonempty: "0 < length (src @ sep2 @ dst @ ?R)" by simp
  from s2 have "is_whitespace (hd (sep2 @ dst @ ?R))"
    by (cases sep2) (auto simp: is_separator_def)
  then have r1: "read_int (src @ sep2 @ dst @ ?R) = (of_nat (decimal src), dst @ ?R)"
    using read_int_number(1) [OF n1, of "sep2 @ dst @ ?R"] dropWhile_separator [OF s2 n2, of ?R]
    by simp
  have r2: "read_int (dst @ ?R) = (of_nat (decimal dst), dropWhile is_whitespace ?R)"
    using read_int_number(1) [OF n2 edges_text_start [OF rest assms(2)]] .
  have u1: "unat (of_nat (decimal src) :: size_t) = decimal src"
    and u2: "unat (of_nat (decimal dst) :: size_t) = decimal dst"
    using n1 n2 by (simp_all add: is_number_def unat_of_nat)
  show ?case
    unfolding start
    by (subst read_graph_loop.simps)
      (simp only: nonempty if_True r1 r2 Let_def prod.case u1 u2 Cons.IH [OF rest]
        list.map edge_of.simps e add_edges.simps)
qed

lemma read_graph_well_formed:
  assumes "well_formed count es trailing"
  shows "max_graph_nodes (graph_text_of count es trailing) = decimal count"
    and "read_graph max_nodes max_edges (graph_text_of count es trailing)
     = (case graph_raw_new max_nodes max_edges (decimal count) of
          Inl e \<Rightarrow> Inl e
        | Inr graph \<Rightarrow> add_edges graph (map edge_of es))"
proof -
  from assms have n: "is_number count" and e: "list_all (is_edge_text (decimal count)) es"
    and t: "list_all is_whitespace trailing"
    by (simp_all add: well_formed_def)
  let ?R = "edges_text es @ trailing"
  have r: "read_int (count @ ?R) = (of_nat (decimal count), dropWhile is_whitespace ?R)"
    using read_int_number(1) [OF n edges_text_start [OF e t]] .
  have u: "unat (of_nat (decimal count) :: size_t) = decimal count"
    using n by (simp add: is_number_def unat_of_nat)
  show "max_graph_nodes (graph_text_of count es trailing) = decimal count"
    by (simp add: max_graph_nodes_def read_int_v_eq graph_text_of_def r u)
  show "read_graph max_nodes max_edges (graph_text_of count es trailing)
     = (case graph_raw_new max_nodes max_edges (decimal count) of
          Inl e \<Rightarrow> Inl e
        | Inr graph \<Rightarrow> add_edges graph (map edge_of es))"
    by (simp add: read_graph_def graph_text_of_def r u read_graph_loop_edges [OF e t]
        cong: sum.case_cong)
qed

lemma edge_of_bounds:
  assumes "list_all (is_edge_text n) es"
  shows "\<forall>p \<in> set (map edge_of es). fst p < n \<and> snd p < n"
  using assms by (induction es) auto

text \<open>The graph read from a well-formed text, and its rows.\<close>

lemma read_graph_rows:
  assumes "well_formed count es trailing"
  defines "graph_text \<equiv> graph_text_of count es trailing"
  shows "\<exists>graph. read_graph (max_graph_nodes graph_text) (max_graph_edges graph_text) graph_text
        = Inr graph
     \<and> graph_rows graph (rows_after 0 (\<lambda>v. []) (map edge_of es))
     \<and> used_nodes graph = decimal count
     \<and> length (nodes graph) = decimal count
     \<and> length (edge_memory (edges graph)) = 2 * length es + 1
     \<and> next_available (edges graph) = length es"
proof -
  let ?n = "decimal count" and ?ps = "map edge_of es"
  from assms(1) have e: "list_all (is_edge_text ?n) es"
    by (simp add: well_formed_def)
  have mn: "max_graph_nodes graph_text = ?n"
    unfolding graph_text_def by (rule read_graph_well_formed(1) [OF assms(1)])
  have me: "max_graph_edges graph_text = 2 * length es + 1"
    unfolding graph_text_def using max_graph_edges_word_count_aux [OF assms(1)] .
  obtain graph0 where g0: "graph_raw_new ?n (2 * length es + 1) ?n = Inr graph0"
    by (simp add: graph_raw_new_def)
  note f = graph_raw_new_rows [OF g0]
  from f have r0: "graph_rows graph0 (\<lambda>v. [])" by simp
  have "\<exists>graph. add_edges graph0 ?ps = Inr graph"
    using edge_of_bounds [OF e] f by (intro add_edges_succeeds [OF r0]) auto
  then obtain graph where g: "add_edges graph0 ?ps = Inr graph" ..
  from add_edges_rows [OF r0 g] f
  have "graph_rows graph (rows_after 0 (\<lambda>v. []) ?ps)
     \<and> used_nodes graph = ?n \<and> length (nodes graph) = ?n
     \<and> length (edge_memory (edges graph)) = 2 * length es + 1
     \<and> next_available (edges graph) = length es"
    by simp
  moreover have "read_graph (max_graph_nodes graph_text) (max_graph_edges graph_text) graph_text
     = Inr graph"
    unfolding mn me unfolding graph_text_def
    using g0 g by (simp add: read_graph_well_formed(2) [OF assms(1)])
  ultimately show ?thesis by blast
qed

subsection \<open>Walking all edge lists\<close>

lemma print_nodes_rows:
  assumes "graph_rows graph rows"
    and "\<forall>v \<in> set vs. v < used_nodes graph \<and> length (rows v) < fuel"
  shows "print_nodes fuel graph (map (\<lambda>v. nodes graph ! v) vs)
     = Some (Inr (map (\<lambda>v. (v, rows v)) vs))"
  using assms(2)
proof (induction vs)
  case Nil
  show ?case by simp
next
  case (Cons v vs)
  then have v: "v < used_nodes graph" and l: "length (rows v) < fuel" by simp_all
  from assms(1) v have vl: "v < length (nodes graph)"
    and idv: "node_id (nodes graph ! v) = numeric_id_t (Some v)"
    by (simp_all add: graph_rows_def)
  from assms(1) vl have "edge_list (edges graph) (edge_begin_id (nodes graph ! v)) (rows v)"
    by (simp add: graph_rows_def)
  from print_edges_row [OF this l] Cons show ?case
    by (simp add: idv)
qed

lemma print_graph_rows:
  assumes "graph_rows graph rows"
    and "\<forall>v < used_nodes graph. length (rows v) < fuel"
  shows "print_graph fuel graph = Some (Inr (map (\<lambda>v. (v, rows v)) [0..<used_nodes graph]))"
proof -
  from assms(1) have le: "used_nodes graph \<le> length (nodes graph)"
    by (simp add: graph_rows_def)
  have "take (used_nodes graph) (nodes graph)
      = take (used_nodes graph) (map (\<lambda>v. nodes graph ! v) [0..<length (nodes graph)])"
    by (simp add: map_nth)
  also have "\<dots> = map (\<lambda>v. nodes graph ! v) [0..<used_nodes graph]"
    using le by (simp add: take_map)
  finally show ?thesis
    using le print_nodes_rows [OF assms(1), of "[0..<used_nodes graph]" fuel] assms(2)
    by (simp add: print_graph_def)
qed

lemma sum_filter_sources:
  assumes "\<forall>p \<in> set ps. fst p < n"
  shows "(\<Sum>v\<leftarrow>[0..<n]. length (filter (\<lambda>p. fst p = v) ps)) = length ps"
  using assms
proof (induction ps)
  case Nil
  show ?case by simp
next
  case (Cons p ps)
  then have p: "fst p < n" and ih: "(\<Sum>v\<leftarrow>[0..<n]. length (filter (\<lambda>p. fst p = v) ps)) = length ps"
    by simp_all
  have "(\<Sum>v\<leftarrow>[0..<n]. length (filter (\<lambda>q. fst q = v) (p # ps)))
      = (\<Sum>v\<leftarrow>[0..<n]. (if fst p = v then 1 else 0) + length (filter (\<lambda>q. fst q = v) ps))"
    by (intro arg_cong [where f = sum_list] map_cong) auto
  also have "\<dots> = (\<Sum>v\<leftarrow>[0..<n]. if fst p = v then 1 else 0) + length ps"
    by (simp add: sum_list_addf ih)
  also have "(\<Sum>v\<leftarrow>[0..<n]. if fst p = v then 1 else 0) = (1 :: nat)"
    using p by (simp add: interv_sum_list_conv_sum_set_nat)
  finally show ?case by simp
qed

text \<open>
  C3. For a well-formed text with node count \<open>N\<close> and \<open>M\<close> edge pairs, \<open>read_graph\<close>
  returns a graph with \<open>N\<close> nodes, and the walk over all nodes and their edge lists (the
  one \<open>print\<close> makes) returns one row per node and \<open>M\<close> edges in all.
\<close>

theorem read_graph_nodes_and_edges:
  assumes "well_formed count es trailing"
  defines "graph_text \<equiv> graph_text_of count es trailing"
  shows "\<exists>graph rows.
       read_graph (max_graph_nodes graph_text) (max_graph_edges graph_text) graph_text = Inr graph
     \<and> get_num_nodes graph = decimal count
     \<and> print_graph (Suc (length es)) graph = Some (Inr rows)
     \<and> map fst rows = [0..<decimal count]
     \<and> (\<Sum>row\<leftarrow>rows. length (snd row)) = length es"
proof -
  let ?n = "decimal count" and ?ps = "map edge_of es"
  let ?rows = "rows_after 0 (\<lambda>v. []) ?ps"
  from read_graph_rows [OF assms(1)] obtain graph where
    g: "read_graph (max_graph_nodes graph_text) (max_graph_edges graph_text) graph_text = Inr graph"
    and r: "graph_rows graph ?rows" and u: "used_nodes graph = ?n"
    unfolding graph_text_def by blast
  from assms(1) have e: "list_all (is_edge_text ?n) es"
    by (simp add: well_formed_def)
  have len: "length (?rows v) = length (filter (\<lambda>p. fst p = v) ?ps)" for v
    by (simp add: rows_after_length)
  have "length (?rows v) < Suc (length es)" for v
    unfolding len using length_filter_le [of "\<lambda>p. fst p = v" ?ps]
    by (simp only: length_map less_Suc_eq_le)
  then have p: "print_graph (Suc (length es)) graph
      = Some (Inr (map (\<lambda>v. (v, ?rows v)) [0..<?n]))"
    using print_graph_rows [OF r, of "Suc (length es)"] by (simp add: u)
  have "(\<Sum>row\<leftarrow>map (\<lambda>v. (v, ?rows v)) [0..<?n]. length (snd row))
      = (\<Sum>v\<leftarrow>[0..<?n]. length (filter (\<lambda>p. fst p = v) ?ps))"
    by (simp add: comp_def len)
  also have "\<dots> = length ?ps"
    using edge_of_bounds [OF e] by (intro sum_filter_sources) simp
  finally have s: "(\<Sum>row\<leftarrow>map (\<lambda>v. (v, ?rows v)) [0..<?n]. length (snd row)) = length es"
    by simp
  have m: "map fst (map (\<lambda>v. (v, ?rows v)) [0..<?n]) = [0..<?n]"
    by (simp add: comp_def)
  show ?thesis
    using g u p s m unfolding get_num_nodes_def by blast
qed

theorem read_graph_nodes_and_edges_witness:
  "\<exists>graph rows.
       read_graph (max_graph_nodes ''4  0 1  2 3'') (max_graph_edges ''4  0 1  2 3'')
         ''4  0 1  2 3'' = Inr graph
     \<and> get_num_nodes graph = 4
     \<and> print_graph 3 graph = Some (Inr rows)
     \<and> map fst rows = [0, 1, 2, 3]
     \<and> (\<Sum>row\<leftarrow>rows. length (snd row)) = 2"
proof -
  have d: "decimal ''4'' = 4" by (simp add: decimal_def)
  have u: "[0..<4] = [0, 1, 2, 3 :: nat]" by (simp add: upt_rec)
  show ?thesis
    using read_graph_nodes_and_edges [OF well_formed_example]
    by (simp add: graph_text_of_def d u numeral_3_eq_3 numeral_2_eq_2)
qed

section \<open>The doubled graph\<close>

text \<open>
  The insertions \<open>double_up_edges\<close> makes for one row of the original graph, and for all
  rows in node order.
\<close>

fun double_row :: "nat \<Rightarrow> (nat \<times> nat) list \<Rightarrow> (nat \<times> nat) list" where
  "double_row v [] = []"
| "double_row v ((d, i) # row) = (v, d) # (d, v) # double_row v row"

definition double_rows :: "(nat \<times> (nat \<times> nat) list) list \<Rightarrow> (nat \<times> nat) list" where
  "double_rows rows = concat (map (\<lambda>(v, row). double_row v row) rows)"

lemma add_edges_append:
  "add_edges graph (ps @ qs) =
     (case add_edges graph ps of Inl e \<Rightarrow> Inl e | Inr graph' \<Rightarrow> add_edges graph' qs)"
proof (induction ps arbitrary: graph)
  case Nil
  show ?case by simp
next
  case (Cons p ps)
  obtain s d where p: "p = (s, d)" by (cases p)
  show ?case
    by (simp add: p Cons.IH split: sum.splits)
qed

lemma double_up_edges_fanout_row:
  assumes "edge_list (edges graph) e row"
  shows "double_up_edges_fanout graph new_graph (numeric_id_t (Some v)) e
     = add_edges new_graph (double_row v row)"
  using assms
proof (induction row arbitrary: e new_graph)
  case Nil
  then have "e = None" by (cases e) auto
  then show ?case by (subst double_up_edges_fanout.simps) simp
next
  case (Cons x row)
  obtain d i where x: "x = (d, i)" by (cases x)
  from Cons.prems have e: "e = Some (numeric_id_t (Some i))"
    and i: "i < length (edge_memory (edges graph))"
    and dst: "edge_dst_node (edge_memory (edges graph) ! i) = numeric_id_t (Some d)"
    and nxt: "edge_list (edges graph) (edge_next_edge (edge_memory (edges graph) ! i)) row"
    by (cases e; simp add: x)+
  have d: "dst_node graph (numeric_id_t (Some i)) = Inr (numeric_id_t (Some d))"
    and n: "next_edge graph (numeric_id_t (Some i))
      = Inr (edge_next_edge (edge_memory (edges graph) ! i))"
    using i dst by (simp_all add: dst_node_def next_edge_def get_edge_def array_at_def)
  show ?case
    by (subst double_up_edges_fanout.simps)
      (simp add: e x d n Cons.IH [OF nxt] split: sum.splits)
qed

lemma double_up_edges_nodes_rows:
  assumes "graph_rows graph rows"
  shows "double_up_edges_nodes graph new_graph i
     = add_edges new_graph (double_rows (map (\<lambda>v. (v, rows v)) [i..<used_nodes graph]))"
proof (induction "used_nodes graph - i" arbitrary: i new_graph)
  case 0
  then show ?case
    by (subst double_up_edges_nodes.simps) (simp add: get_num_nodes_def double_rows_def)
next
  case (Suc k)
  then have i: "i < used_nodes graph" and k: "k = used_nodes graph - (i + 1)" by simp_all
  from assms i have il: "i < length (nodes graph)"
    by (simp add: graph_rows_def)
  then have el: "edge_list (edges graph) (edge_begin_id (nodes graph ! i)) (rows i)"
    using assms by (simp add: graph_rows_def)
  have f: "first_edge graph (numeric_id_t (Some i)) = Inr (edge_begin_id (nodes graph ! i))"
    using il by (simp add: first_edge_def array_at_def)
  have upt: "[i..<used_nodes graph] = i # [i + 1..<used_nodes graph]"
    using i by (simp add: upt_rec)
  have ih: "double_up_edges_nodes graph ng (Suc i)
      = add_edges ng (double_rows (map (\<lambda>v. (v, rows v)) [Suc i..<used_nodes graph]))" for ng
    using Suc.hyps(1) [OF k, of ng] by simp
  show ?case
    by (subst double_up_edges_nodes.simps)
      (simp add: i get_num_nodes_def f double_up_edges_fanout_row [OF el] upt
        add_edges_append ih Let_def double_rows_def cong: sum.case_cong)
qed

lemma double_up_edges_rows:
  assumes "graph_rows graph rows"
  shows "double_up_edges max_nodes max_edges graph
     = (case graph_raw_new max_nodes max_edges (used_nodes graph) of
          Inl err \<Rightarrow> Inl err
        | Inr new_graph \<Rightarrow>
            add_edges new_graph (double_rows (map (\<lambda>v. (v, rows v)) [0..<used_nodes graph])))"
  by (simp add: double_up_edges_def get_num_nodes_def double_up_edges_nodes_rows [OF assms]
      Let_def cong: sum.case_cong)

lemma set_double_row:
  "set (double_row v row) = (\<lambda>d. (v, d)) ` fst ` set row \<union> (\<lambda>d. (d, v)) ` fst ` set row"
  by (induction v row rule: double_row.induct) auto

lemma length_double_row: "length (double_row v row) = 2 * length row"
  by (induction v row rule: double_row.induct) auto

lemma set_double_rows:
  "set (double_rows rows)
     = {(v, d). \<exists>row. (v, row) \<in> set rows \<and> d \<in> fst ` set row}
       \<union> {(d, v). \<exists>row. (v, row) \<in> set rows \<and> d \<in> fst ` set row}"
proof (induction rows)
  case Nil
  show ?case by (simp add: double_rows_def)
next
  case (Cons r rows)
  obtain v row where r: "r = (v, row)" by (cases r)
  have "set (double_rows (r # rows)) = set (double_row v row) \<union> set (double_rows rows)"
    by (simp add: double_rows_def r)
  then show ?case
    unfolding Cons.IH set_double_row r by auto
qed

lemma length_double_rows:
  "length (double_rows rows) = 2 * (\<Sum>row\<leftarrow>rows. length (snd row))"
  by (induction rows) (auto simp: double_rows_def length_double_row)

lemma rows_after_set:
  "fst ` set (rows_after k rows ps v) = {d. (v, d) \<in> set ps} \<union> fst ` set (rows v)"
proof -
  have "fst ` set (rows_after k rows ps v) = set (map fst (rows_after k rows ps v))"
    by simp
  also have "\<dots> = set (rev (map snd (filter (\<lambda>p. fst p = v) ps)) @ map fst (rows v))"
    by (simp only: rows_after_dsts)
  also have "\<dots> = {d. (v, d) \<in> set ps} \<union> fst ` set (rows v)"
    by force
  finally show ?thesis .
qed

text \<open>
  The pairs met by walking the rows of a graph built from \<open>ps\<close> are the pairs of \<open>ps\<close>,
  and the doubled insertion list holds each of them in both directions.
\<close>

lemma mem_indexed_rows:
  "(v, row) \<in> set (map (\<lambda>v. (v, f v)) [0..<n]) \<longleftrightarrow> v < n \<and> row = f v"
  by auto

lemma set_double_rows_after:
  assumes "\<forall>p \<in> set ps. fst p < n"
  shows "set (double_rows (map (\<lambda>v. (v, rows_after 0 (\<lambda>v. []) ps v)) [0..<n]))
     = set ps \<union> (set ps)\<inverse>"
proof -
  let ?rows = "map (\<lambda>v. (v, rows_after 0 (\<lambda>v. []) ps v)) [0..<n]"
  have mem: "(\<exists>row. (v, row) \<in> set ?rows \<and> d \<in> fst ` set row) \<longleftrightarrow> (v, d) \<in> set ps" for v d
  proof -
    have "(\<exists>row. (v, row) \<in> set ?rows \<and> d \<in> fst ` set row)
        \<longleftrightarrow> v < n \<and> d \<in> fst ` set (rows_after 0 (\<lambda>v. []) ps v)"
    proof -
      have "(v, row) \<in> set ?rows \<longleftrightarrow> v < n \<and> row = rows_after 0 (\<lambda>v. []) ps v" for row
        by (rule mem_indexed_rows)
      then show ?thesis by (simp only: ex_simps simp_thms) simp
    qed
    also have "\<dots> \<longleftrightarrow> v < n \<and> (v, d) \<in> set ps"
      by (simp only: rows_after_set) simp
    also have "\<dots> \<longleftrightarrow> (v, d) \<in> set ps"
      using assms by auto
    finally show ?thesis .
  qed
  show ?thesis
    unfolding set_double_rows mem by auto
qed

lemma length_double_rows_after:
  assumes "\<forall>p \<in> set ps. fst p < n"
  shows "length (double_rows (map (\<lambda>v. (v, rows_after 0 (\<lambda>v. []) ps v)) [0..<n]))
     = 2 * length ps"
proof -
  have "(\<Sum>row\<leftarrow>map (\<lambda>v. (v, rows_after 0 (\<lambda>v. []) ps v)) [0..<n]. length (snd row))
      = (\<Sum>v\<leftarrow>[0..<n]. length (filter (\<lambda>p. fst p = v) ps))"
    by (simp add: comp_def rows_after_length)
  then show ?thesis
    by (simp only: length_double_rows sum_filter_sources [OF assms])
qed

lemma add_edges_sources:
  assumes "graph_rows graph rows" and "add_edges graph ps = Inr graph'"
  shows "\<forall>p \<in> set ps. fst p < length (nodes graph)"
  using assms
proof (induction ps arbitrary: graph rows)
  case Nil
  show ?case by simp
next
  case (Cons p ps)
  obtain s d where p: "p = (s, d)" by (cases p)
  from Cons.prems(2) obtain g1 where
    g1: "add_edge graph (numeric_id_t (Some s)) (numeric_id_t (Some d)) = Inr g1"
    and rest: "add_edges g1 ps = Inr graph'"
    by (auto simp: p split: sum.splits)
  note b = add_edge_Inr_bounds [OF g1]
  from add_edge_rows [OF Cons.prems(1) b, of d] g1
  have r1: "graph_rows g1 (rows(s := (d, next_available (edges graph)) # rows s))"
    and l1: "length (nodes g1) = length (nodes graph)"
    by auto
  from Cons.IH [OF r1 rest] b(1) show ?case
    by (simp add: p l1)
qed

text \<open>The graph built by a sequence of insertions on a fresh graph, then doubled.\<close>

lemma doubled_graph_rows:
  assumes "graph_raw_new n max_edges n = Inr graph0"
    and "add_edges graph0 ps = Inr graph"
    and "double_up_edges n max_edges graph = Inr bidir_graph"
  defines "rows \<equiv> map (\<lambda>v. (v, rows_after 0 (\<lambda>v. []) ps v)) [0..<n]"
  shows "graph_rows graph (rows_after 0 (\<lambda>v. []) ps)"
    and "used_nodes graph = n"
    and "\<exists>new_graph. graph_raw_new n max_edges n = Inr new_graph
           \<and> add_edges new_graph (double_rows rows) = Inr bidir_graph"
    and "graph_rows bidir_graph (rows_after 0 (\<lambda>v. []) (double_rows rows))"
    and "used_nodes bidir_graph = n" and "length (nodes bidir_graph) = n"
    and "set (double_rows rows) = set ps \<union> (set ps)\<inverse>"
    and "length (double_rows rows) = 2 * length ps"
    and "next_available (edges bidir_graph) = 2 * length ps"
    and "length (edge_memory (edges bidir_graph)) = max_edges"
proof -
  note f0 = graph_raw_new_rows [OF assms(1)]
  from f0 have r0: "graph_rows graph0 (\<lambda>v. [])" by simp
  note f1 = add_edges_rows [OF r0 assms(2)]
  from f1 f0 show r: "graph_rows graph (rows_after 0 (\<lambda>v. []) ps)"
    and u: "used_nodes graph = n"
    by simp_all
  from add_edges_sources [OF r0 assms(2)] f0 have src: "\<forall>p \<in> set ps. fst p < n"
    by simp
  from assms(3) have d: "add_edges graph0 (double_rows rows) = Inr bidir_graph"
    by (simp add: double_up_edges_rows [OF r] u assms(1) rows_def)
  then show "\<exists>new_graph. graph_raw_new n max_edges n = Inr new_graph
           \<and> add_edges new_graph (double_rows rows) = Inr bidir_graph"
    using assms(1) by simp
  note f2 = add_edges_rows [OF r0 d]
  from f2 f0 show "graph_rows bidir_graph (rows_after 0 (\<lambda>v. []) (double_rows rows))"
    and "used_nodes bidir_graph = n" and "length (nodes bidir_graph) = n"
    and "length (edge_memory (edges bidir_graph)) = max_edges"
    by simp_all
  show "set (double_rows rows) = set ps \<union> (set ps)\<inverse>"
    unfolding rows_def by (rule set_double_rows_after [OF src])
  show l: "length (double_rows rows) = 2 * length ps"
    unfolding rows_def by (rule length_double_rows_after [OF src])
  from f2 f0 show "next_available (edges bidir_graph) = 2 * length ps"
    by (simp add: l)
qed

text \<open>
  What \<open>double_up_edges\<close> returns for a graph built by the constructor, with all
  \<open>n\<close> nodes of the array in use as \<open>read_graph\<close> builds it, and by a sequence of
  insertions: a graph with the same number of nodes, built by a fresh constructor call and
  by inserting, for every edge met on the walk over the original graph, that edge and its
  reverse; the edge list of a node \<open>v\<close> in the result holds the nodes joined to \<open>v\<close>
  by an edge of the original in either direction.
\<close>

lemma doubled_graph_walk:
  assumes "graph_raw_new n max_edges n = Inr graph0"
    and "add_edges graph0 ps = Inr graph"
    and "double_up_edges n max_edges graph = Inr bidir_graph"
  shows "get_num_nodes bidir_graph = get_num_nodes graph
     \<and> (\<exists>rows new_graph.
           print_graph (Suc (length ps)) graph = Some (Inr rows)
         \<and> graph_raw_new n max_edges (get_num_nodes graph) = Inr new_graph
         \<and> add_edges new_graph (double_rows rows) = Inr bidir_graph)
     \<and> (\<forall>v < n. \<exists>first row.
           first_edge bidir_graph (numeric_id_t (Some v)) = Inr first
         \<and> print_edges (Suc (2 * length ps)) bidir_graph first = Some (Inr row)
         \<and> fst ` set row = {d. (v, d) \<in> set ps \<or> (d, v) \<in> set ps})"
proof -
  let ?rows1 = "rows_after 0 (\<lambda>v. []) ps"
  let ?rows = "map (\<lambda>v. (v, ?rows1 v)) [0..<n]"
  let ?rows2 = "rows_after 0 (\<lambda>v. []) (double_rows ?rows)"
  note d = doubled_graph_rows [OF assms]
  have "length (?rows1 v) < Suc (length ps)" for v
    using length_filter_le [of "\<lambda>p. fst p = v" ps]
    by (simp only: rows_after_length list.size add_0_right less_Suc_eq_le)
  then have p: "print_graph (Suc (length ps)) graph = Some (Inr ?rows)"
    using print_graph_rows [OF d(1), of "Suc (length ps)"] by (simp add: d(2))
  have walk: "\<exists>first row.
           first_edge bidir_graph (numeric_id_t (Some v)) = Inr first
         \<and> print_edges (Suc (2 * length ps)) bidir_graph first = Some (Inr row)
         \<and> fst ` set row = {d. (v, d) \<in> set ps \<or> (d, v) \<in> set ps}" if v: "v < n" for v
  proof -
    let ?first = "edge_begin_id (nodes bidir_graph ! v)"
    have f: "first_edge bidir_graph (numeric_id_t (Some v)) = Inr ?first"
      using v d(6) by (simp add: first_edge_def array_at_def)
    have el: "edge_list (edges bidir_graph) ?first (?rows2 v)"
      using d(4) v d(6) by (simp add: graph_rows_def)
    have "length (?rows2 v) < Suc (2 * length ps)"
      using length_filter_le [of "\<lambda>p. fst p = v" "double_rows ?rows"]
      by (simp only: rows_after_length list.size add_0_right less_Suc_eq_le d(8))
    from print_edges_row [OF el this]
    have pe: "print_edges (Suc (2 * length ps)) bidir_graph ?first = Some (Inr (?rows2 v))" .
    have "fst ` set (?rows2 v) = {d. (v, d) \<in> set ps \<or> (d, v) \<in> set ps}"
      by (simp only: rows_after_set d(7)) auto
    with f pe show ?thesis by blast
  qed
  from d(3) p walk show ?thesis
    by (simp add: get_num_nodes_def d(2) d(5))
qed

section \<open>The two graphs of the program\<close>

lemma pipeline_graphs:
  assumes "well_formed count es trailing"
  defines "graph_text \<equiv> graph_text_of count es trailing"
    and "ps \<equiv> map edge_of es"
  shows "\<exists>graph bidir_graph rows.
       read_graph (max_graph_nodes graph_text) (max_graph_edges graph_text) graph_text = Inr graph
     \<and> double_up_edges (max_graph_nodes graph_text) (max_graph_edges graph_text) graph
           = Inr bidir_graph
     \<and> max_graph_nodes graph_text = decimal count
     \<and> max_graph_edges graph_text = 2 * length es + 1
     \<and> length (nodes graph) = decimal count
     \<and> length (edge_memory (edges graph)) = 2 * length es + 1
     \<and> next_available (edges graph) = length es
     \<and> graph_rows bidir_graph rows
     \<and> used_nodes bidir_graph = decimal count
     \<and> length (nodes bidir_graph) = decimal count
     \<and> length (edge_memory (edges bidir_graph)) = 2 * length es + 1
     \<and> next_available (edges bidir_graph) = 2 * length es
     \<and> (\<forall>v. fst ` set (rows v) = {d. (v, d) \<in> set ps \<union> (set ps)\<inverse>})"
proof -
  let ?n = "decimal count" and ?m = "2 * length es + 1"
  let ?rows1 = "map (\<lambda>v. (v, rows_after 0 (\<lambda>v. []) ps v)) [0..<?n]"
  let ?qs = "double_rows ?rows1"
  from assms(1) have e: "list_all (is_edge_text ?n) es"
    by (simp add: well_formed_def)
  have mn: "max_graph_nodes graph_text = ?n"
    unfolding graph_text_def by (rule read_graph_well_formed(1) [OF assms(1)])
  have me: "max_graph_edges graph_text = ?m"
    unfolding graph_text_def by (rule max_graph_edges_word_count_aux [OF assms(1)])
  from read_graph_rows [OF assms(1)] obtain graph where
    g: "read_graph ?n ?m graph_text = Inr graph"
    and r: "graph_rows graph (rows_after 0 (\<lambda>v. []) ps)"
    and u: "used_nodes graph = ?n" and ln: "length (nodes graph) = ?n"
    and le: "length (edge_memory (edges graph)) = ?m"
    and na: "next_available (edges graph) = length es"
    unfolding graph_text_def [symmetric] ps_def [symmetric] mn me by blast
  from edge_of_bounds [OF e] have b: "\<forall>p \<in> set ps. fst p < ?n \<and> snd p < ?n"
    by (simp add: ps_def)
  then have src: "\<forall>p \<in> set ps. fst p < ?n" by simp
  have sq: "set ?qs = set ps \<union> (set ps)\<inverse>"
    by (rule set_double_rows_after [OF src])
  have lq: "length ?qs = 2 * length es"
    using length_double_rows_after [OF src] by (simp add: ps_def)
  obtain new_graph where ng: "graph_raw_new ?n ?m ?n = Inr new_graph"
    by (simp add: graph_raw_new_def)
  note f = graph_raw_new_rows [OF ng]
  from f have r0: "graph_rows new_graph (\<lambda>v. [])" by simp
  have "\<forall>p \<in> set ?qs. fst p < length (nodes new_graph)"
    unfolding sq using b f by auto
  moreover have "next_available (edges new_graph) + length ?qs
      \<le> length (edge_memory (edges new_graph))"
    using f by (simp add: lq)
  ultimately have "\<exists>bidir_graph. add_edges new_graph ?qs = Inr bidir_graph"
    by (rule add_edges_succeeds [OF r0])
  then obtain bidir_graph where bg: "add_edges new_graph ?qs = Inr bidir_graph" ..
  have d: "double_up_edges ?n ?m graph = Inr bidir_graph"
    using ng bg by (simp add: double_up_edges_rows [OF r] u)
  let ?rows = "rows_after 0 (\<lambda>v. []) ?qs"
  from add_edges_rows [OF r0 bg] f
  have r2: "graph_rows bidir_graph ?rows" and u2: "used_nodes bidir_graph = ?n"
    and ln2: "length (nodes bidir_graph) = ?n"
    and le2: "length (edge_memory (edges bidir_graph)) = ?m"
    and na2: "next_available (edges bidir_graph) = 2 * length es"
    by (simp_all add: lq)
  have adj: "\<forall>v. fst ` set (?rows v) = {d. (v, d) \<in> set ps \<union> (set ps)\<inverse>}"
    by (simp only: rows_after_set sq) simp
  show ?thesis
    unfolding mn me
    using g d ln le na r2 u2 ln2 le2 na2 adj by blast
qed

text \<open>
  C10. For a well-formed text with \<open>M\<close> edge pairs, \<open>read_graph\<close> and
  \<open>double_up_edges\<close> both return a graph, that is, no \<open>at\<close> of \<open>alloc_edge\<close>,
  \<open>get_edge\<close> or \<open>add_edge\<close> throws: the first graph has taken \<open>M\<close> slots and the
  doubled graph \<open>2 * M\<close> slots of an edge pool of \<open>count_words(text)\<close> slots, and both
  node arrays have \<open>N\<close> nodes.
\<close>

theorem construction_within_capacity:
  assumes "well_formed count es trailing"
  shows "\<exists>graph bidir_graph.
       read_graph (max_graph_nodes (graph_text_of count es trailing))
         (max_graph_edges (graph_text_of count es trailing)) (graph_text_of count es trailing)
         = Inr graph
     \<and> double_up_edges (max_graph_nodes (graph_text_of count es trailing))
         (max_graph_edges (graph_text_of count es trailing)) graph = Inr bidir_graph
     \<and> max_graph_edges (graph_text_of count es trailing)
         = nat (count_words (graph_text_of count es trailing))
     \<and> length (edge_memory (edges graph)) = max_graph_edges (graph_text_of count es trailing)
     \<and> length (edge_memory (edges bidir_graph))
         = max_graph_edges (graph_text_of count es trailing)
     \<and> next_available (edges graph) = length es
     \<and> next_available (edges bidir_graph) = 2 * length es
     \<and> 2 * length es \<le> max_graph_edges (graph_text_of count es trailing)
     \<and> length (nodes graph) = decimal count
     \<and> length (nodes bidir_graph) = decimal count"
proof -
  from pipeline_graphs [OF assms] obtain graph bidir_graph where
    "read_graph (max_graph_nodes (graph_text_of count es trailing))
         (max_graph_edges (graph_text_of count es trailing)) (graph_text_of count es trailing)
         = Inr graph"
    "double_up_edges (max_graph_nodes (graph_text_of count es trailing))
         (max_graph_edges (graph_text_of count es trailing)) graph = Inr bidir_graph"
    "max_graph_edges (graph_text_of count es trailing) = 2 * length es + 1"
    "length (nodes graph) = decimal count"
    "length (edge_memory (edges graph)) = 2 * length es + 1"
    "next_available (edges graph) = length es"
    "length (nodes bidir_graph) = decimal count"
    "length (edge_memory (edges bidir_graph)) = 2 * length es + 1"
    "next_available (edges bidir_graph) = 2 * length es"
    by blast
  moreover have "max_graph_edges (graph_text_of count es trailing)
         = nat (count_words (graph_text_of count es trailing))"
    by (simp add: max_graph_edges_def)
  ultimately show ?thesis
    by (intro exI [of _ graph] exI [of _ bidir_graph]) simp
qed

theorem construction_within_capacity_witness:
  "\<exists>graph bidir_graph.
       read_graph (max_graph_nodes ''4  0 1  2 3'') (max_graph_edges ''4  0 1  2 3'')
         ''4  0 1  2 3'' = Inr graph
     \<and> double_up_edges (max_graph_nodes ''4  0 1  2 3'') (max_graph_edges ''4  0 1  2 3'')
         graph = Inr bidir_graph
     \<and> max_graph_edges ''4  0 1  2 3'' = 5
     \<and> length (edge_memory (edges graph)) = 5
     \<and> length (edge_memory (edges bidir_graph)) = 5
     \<and> next_available (edges graph) = 2
     \<and> next_available (edges bidir_graph) = 4
     \<and> length (nodes graph) = 4
     \<and> length (nodes bidir_graph) = 4"
proof -
  have d: "decimal ''4'' = 4" by (simp add: decimal_def)
  have m: "max_graph_edges ''4  0 1  2 3'' = 5"
    by (simp add: max_graph_edges_def count_words_def Let_def)
  have cw: "nat (count_words ''4  0 1  2 3'') = 5"
    by (simp add: count_words_def Let_def)
  show ?thesis
    using construction_within_capacity [OF well_formed_example]
    unfolding graph_text_of_def by (simp add: d m cw eval_nat_numeral)
qed

section \<open>The order of the label writes\<close>

text \<open>
  To speak about how often a node is labelled, \<open>mark_connected\<close> and \<open>count_connected\<close>
  are written once more with a log: every write \<open>visited.at(n) = color\<close> appends \<open>n\<close>
  to it. Nothing else differs, and without the log the functions are the ones above
  (\<open>mark_connected_log_erase\<close>, \<open>count_connected_log_erase\<close>).
\<close>

fun mark_connected_log ::
  "nat \<Rightarrow> graph_raw \<Rightarrow> node_id_t \<Rightarrow> int list \<Rightarrow> int \<Rightarrow> nat list
     \<Rightarrow> (error + int list \<times> nat list) option"
and mark_connected_fanout_log ::
  "nat \<Rightarrow> graph_raw \<Rightarrow> optional_edge_id_t \<Rightarrow> int list \<Rightarrow> int \<Rightarrow> nat list
     \<Rightarrow> (error + int list \<times> nat list) option"
where
  "mark_connected_log 0 graph node_idx visited color log = None"
| "mark_connected_log (Suc fuel) graph node_idx visited color log =
     (case id_value node_idx of
        Inl err \<Rightarrow> Some (Inl err)
      | Inr n \<Rightarrow>
         (if n < length visited
          then (case first_edge graph node_idx of
                  Inl err \<Rightarrow> Some (Inl err)
                | Inr edge_idx \<Rightarrow>
                    mark_connected_fanout_log fuel graph edge_idx (visited[n := color]) color
                      (log @ [n]))
          else Some (Inl out_of_range)))"
| "mark_connected_fanout_log 0 graph edge_idx visited color log = None"
| "mark_connected_fanout_log (Suc fuel) graph edge_idx visited color log =
     (case edge_idx of
        None \<Rightarrow> Some (Inr (visited, log))
      | Some e \<Rightarrow>
         (case dst_node graph e of
            Inl err \<Rightarrow> Some (Inl err)
          | Inr dst \<Rightarrow>
             (case id_value dst of
                Inl err \<Rightarrow> Some (Inl err)
              | Inr d \<Rightarrow>
                 (case array_at visited d of
                    Inl err \<Rightarrow> Some (Inl err)
                  | Inr seen \<Rightarrow>
                     (case (if seen = - 1
                            then mark_connected_log fuel graph dst visited color log
                            else Some (Inr (visited, log))) of
                        None \<Rightarrow> None
                      | Some (Inl err) \<Rightarrow> Some (Inl err)
                      | Some (Inr (visited', log')) \<Rightarrow>
                         (case next_edge graph e of
                            Inl err \<Rightarrow> Some (Inl err)
                          | Inr edge_idx' \<Rightarrow>
                              mark_connected_fanout_log fuel graph edge_idx' visited' color
                                log'))))))"

function count_connected_loop_log ::
  "nat \<Rightarrow> graph_raw \<Rightarrow> nat \<Rightarrow> int list \<Rightarrow> int \<Rightarrow> nat list
     \<Rightarrow> (error + int \<times> nat list) option" where
  "count_connected_loop_log fuel graph i visited color log =
     (if i < get_num_nodes graph
      then (let node_idx = numeric_id_t (Some i)
            in case array_at visited i of
                 Inl err \<Rightarrow> Some (Inl err)
               | Inr seen \<Rightarrow>
                  (if seen = - 1
                   then (case mark_connected_log fuel graph node_idx visited color log of
                           None \<Rightarrow> None
                         | Some (Inl err) \<Rightarrow> Some (Inl err)
                         | Some (Inr (visited', log')) \<Rightarrow>
                             count_connected_loop_log fuel graph (i + 1) visited' (color + 1)
                               log')
                   else count_connected_loop_log fuel graph (i + 1) visited color log))
      else Some (Inr (color, log)))"
  by pat_completeness auto
termination
  by (relation "measure (\<lambda>(fuel, graph, i, visited, color, log). get_num_nodes graph - i)")
    auto

declare count_connected_loop_log.simps [simp del]

definition count_connected_log ::
  "nat \<Rightarrow> nat \<Rightarrow> graph_raw \<Rightarrow> (error + int \<times> nat list) option" where
  "count_connected_log fuel max_nodes graph =
     count_connected_loop_log fuel graph 0 (replicate max_nodes (- 1)) 0 []"

text \<open>Dropping the log from a result.\<close>

definition erase_log :: "(error + 'a \<times> nat list) option \<Rightarrow> (error + 'a) option" where
  "erase_log r = map_option (map_sum id fst) r"

lemma erase_log_simps [simp]:
  "erase_log None = None"
  "erase_log (Some (Inl err)) = Some (Inl err)"
  "erase_log (Some (Inr (x, log))) = Some (Inr x)"
  by (simp_all add: erase_log_def)

lemma mark_connected_log_erase_both:
  "(\<forall>node_idx visited log.
      erase_log (mark_connected_log fuel graph node_idx visited color log)
        = mark_connected fuel graph node_idx visited color)
   \<and> (\<forall>edge_idx visited log.
      erase_log (mark_connected_fanout_log fuel graph edge_idx visited color log)
        = mark_connected_fanout fuel graph edge_idx visited color)"
proof (induction fuel)
  case 0
  show ?case by simp
next
  case (Suc fuel)
  then have m: "erase_log (mark_connected_log fuel graph node_idx visited color log)
        = mark_connected fuel graph node_idx visited color"
    and f: "erase_log (mark_connected_fanout_log fuel graph edge_idx visited color log)
        = mark_connected_fanout fuel graph edge_idx visited color"
    for node_idx edge_idx visited log
    by simp_all
  have a: "erase_log (mark_connected_log (Suc fuel) graph node_idx visited color log)
        = mark_connected (Suc fuel) graph node_idx visited color" for node_idx visited log
    by (simp add: f split: sum.splits)
  have b: "erase_log (mark_connected_fanout_log (Suc fuel) graph edge_idx visited color log)
        = mark_connected_fanout (Suc fuel) graph edge_idx visited color"
    for edge_idx visited log
  proof (cases edge_idx)
    case None
    then show ?thesis by simp
  next
    case (Some e)
    show ?thesis
    proof (cases "dst_node graph e")
      case (Inl err)
      then show ?thesis by (simp add: Some)
    next
      case (Inr dst)
      show ?thesis
      proof (cases "id_value dst")
        case (Inl err)
        then show ?thesis by (simp add: Some Inr)
      next
        case d: (Inr d)
        show ?thesis
        proof (cases "array_at visited d")
          case (Inl err)
          then show ?thesis by (simp add: Some Inr d)
        next
          case seen: (Inr seen)
          show ?thesis
          proof (cases "seen = - 1")
            case True
            show ?thesis
            proof (cases "mark_connected_log fuel graph dst visited color log")
              case None
              with m [of dst visited log]
              have "mark_connected fuel graph dst visited color = None" by simp
              with None show ?thesis
                by (simp add: Some Inr d seen True)
            next
              case some: (Some r)
              show ?thesis
              proof (cases r)
                case (Inl err)
                with m [of dst visited log] some
                have "mark_connected fuel graph dst visited color = Some (Inl err)" by simp
                with some Inl show ?thesis
                  by (simp add: Some Inr d seen True)
              next
                case res: (Inr p)
                obtain visited' log' where p: "p = (visited', log')" by (cases p)
                from m [of dst visited log] some res p
                have "mark_connected fuel graph dst visited color = Some (Inr visited')"
                  by simp
                then show ?thesis
                  using some res p
                  by (simp add: Some Inr d seen True f split: sum.splits)
              qed
            qed
          next
            case False
            then show ?thesis
              by (simp add: Some Inr d seen f split: sum.splits)
          qed
        qed
      qed
    qed
  qed
  from a b show ?case by blast
qed

lemma mark_connected_log_erase:
  "erase_log (mark_connected_log fuel graph node_idx visited color log)
     = mark_connected fuel graph node_idx visited color"
  using mark_connected_log_erase_both by blast

lemma count_connected_loop_log_erase:
  "erase_log (count_connected_loop_log fuel graph i visited color log)
     = count_connected_loop fuel graph i visited color"
proof (induction fuel graph i visited color log rule: count_connected_loop_log.induct)
  case (1 fuel graph i visited color log)
  show ?case
  proof (cases "i < get_num_nodes graph")
    case False
    then show ?thesis
      by (subst count_connected_loop_log.simps, subst count_connected_loop.simps) simp
  next
    case True
    show ?thesis
    proof (cases "array_at visited i")
      case (Inl err)
      with True show ?thesis
        by (subst count_connected_loop_log.simps, subst count_connected_loop.simps) simp
    next
      case (Inr seen)
      show ?thesis
      proof (cases "seen = - 1")
        case False
        with True Inr "1.IH"(2) [OF True refl Inr False] show ?thesis
          by (subst count_connected_loop_log.simps, subst count_connected_loop.simps) simp
      next
        case seen: True
        show ?thesis
        proof (cases "mark_connected_log fuel graph (numeric_id_t (Some i)) visited color log")
          case None
          with mark_connected_log_erase [of fuel graph "numeric_id_t (Some i)" visited color log]
          have "mark_connected fuel graph (numeric_id_t (Some i)) visited color = None" by simp
          with None True Inr seen show ?thesis
            by (subst count_connected_loop_log.simps, subst count_connected_loop.simps) simp
        next
          case (Some r)
          show ?thesis
          proof (cases r)
            case (Inl err)
            with mark_connected_log_erase [of fuel graph "numeric_id_t (Some i)" visited color log]
              Some
            have "mark_connected fuel graph (numeric_id_t (Some i)) visited color
                = Some (Inl err)" by simp
            with Inl True Inr seen Some show ?thesis
              by (subst count_connected_loop_log.simps, subst count_connected_loop.simps) simp
          next
            case res: (Inr p)
            obtain visited' log' where p: "p = (visited', log')" by (cases p)
            from mark_connected_log_erase [of fuel graph "numeric_id_t (Some i)" visited color log]
              Some res p
            have m: "mark_connected fuel graph (numeric_id_t (Some i)) visited color
                = Some (Inr visited')"
              by simp
            from "1.IH"(1) [OF True refl Inr seen] Some res p
            have "erase_log (count_connected_loop_log fuel graph (i + 1) visited' (color + 1) log')
                = count_connected_loop fuel graph (i + 1) visited' (color + 1)"
              by simp
            with True Inr seen Some res p m show ?thesis
              by (subst count_connected_loop_log.simps, subst count_connected_loop.simps) simp
          qed
        qed
      qed
    qed
  qed
qed

lemma count_connected_log_erase:
  "erase_log (count_connected_log fuel max_nodes graph) = count_connected fuel max_nodes graph"
  by (simp add: count_connected_log_def count_connected_def count_connected_loop_log_erase)

section \<open>Marking returns\<close>

text \<open>
  \<open>mark_returns\<close>: with enough fuel, and with any more fuel than that,
  \<open>mark_connected\<close> returns the given array and log.
\<close>

definition mark_returns ::
  "graph_raw \<Rightarrow> nat \<Rightarrow> int list \<Rightarrow> int \<Rightarrow> nat list \<Rightarrow> int list \<Rightarrow> nat list \<Rightarrow> bool" where
  "mark_returns graph v visited color log visited' log' \<longleftrightarrow>
     (\<exists>F. \<forall>fuel \<ge> F. mark_connected_log fuel graph (numeric_id_t (Some v)) visited color log
        = Some (Inr (visited', log')))"

definition fanout_returns ::
  "graph_raw \<Rightarrow> optional_edge_id_t \<Rightarrow> int list \<Rightarrow> int \<Rightarrow> nat list \<Rightarrow> int list \<Rightarrow> nat list
     \<Rightarrow> bool" where
  "fanout_returns graph e visited color log visited' log' \<longleftrightarrow>
     (\<exists>F. \<forall>fuel \<ge> F. mark_connected_fanout_log fuel graph e visited color log
        = Some (Inr (visited', log')))"

lemma fanout_returns_None: "fanout_returns graph None visited color log visited log"
proof -
  have "mark_connected_fanout_log fuel graph None visited color log = Some (Inr (visited, log))"
    if "Suc 0 \<le> fuel" for fuel
    using that by (cases fuel) simp_all
  then show ?thesis
    unfolding fanout_returns_def by blast
qed

lemma fanout_returns_Some:
  assumes i: "i < length (edge_memory (edges graph))"
    and dst: "edge_dst_node (edge_memory (edges graph) ! i) = numeric_id_t (Some d)"
    and d: "d < length visited"
    and m: "if visited ! d = - 1 then mark_returns graph d visited color log visited1 log1
            else visited1 = visited \<and> log1 = log"
    and f: "fanout_returns graph (edge_next_edge (edge_memory (edges graph) ! i))
              visited1 color log1 visited' log'"
  shows "fanout_returns graph (Some (numeric_id_t (Some i))) visited color log visited' log'"
proof -
  let ?e = "numeric_id_t (Some i)"
  have dn: "dst_node graph ?e = Inr (numeric_id_t (Some d))"
    and ne: "next_edge graph ?e = Inr (edge_next_edge (edge_memory (edges graph) ! i))"
    using i dst by (simp_all add: dst_node_def next_edge_def get_edge_def array_at_def)
  from f obtain F2 where F2: "\<And>fuel. F2 \<le> fuel \<Longrightarrow>
      mark_connected_fanout_log fuel graph (edge_next_edge (edge_memory (edges graph) ! i))
        visited1 color log1 = Some (Inr (visited', log'))"
    unfolding fanout_returns_def by blast
  have "\<exists>F1. \<forall>fuel \<ge> F1.
      (if visited ! d = - 1 then mark_connected_log fuel graph (numeric_id_t (Some d)) visited
          color log else Some (Inr (visited, log))) = Some (Inr (visited1, log1))"
  proof (cases "visited ! d = - 1")
    case True
    with m show ?thesis
      unfolding mark_returns_def by simp
  next
    case False
    with m show ?thesis by simp
  qed
  then obtain F1 where F1: "\<And>fuel. F1 \<le> fuel \<Longrightarrow>
      (if visited ! d = - 1 then mark_connected_log fuel graph (numeric_id_t (Some d)) visited
          color log else Some (Inr (visited, log))) = Some (Inr (visited1, log1))"
    by blast
  have "mark_connected_fanout_log fuel graph (Some ?e) visited color log
      = Some (Inr (visited', log'))" if "Suc (max F1 F2) \<le> fuel" for fuel
  proof -
    from that obtain fuel' where fuel: "fuel = Suc fuel'" and "F1 \<le> fuel'" "F2 \<le> fuel'"
      by (cases fuel) auto
    with F1 [of fuel'] F2 [of fuel'] show ?thesis
      by (simp add: fuel dn ne array_at_def d)
  qed
  then show ?thesis
    unfolding fanout_returns_def by blast
qed

lemma mark_returns_intro:
  assumes v: "v < length visited" and vn: "v < length (nodes graph)"
    and f: "fanout_returns graph (edge_begin_id (nodes graph ! v)) (visited[v := color]) color
              (log @ [v]) visited' log'"
  shows "mark_returns graph v visited color log visited' log'"
proof -
  have fe: "first_edge graph (numeric_id_t (Some v)) = Inr (edge_begin_id (nodes graph ! v))"
    using vn by (simp add: first_edge_def array_at_def)
  from f obtain F where F: "\<And>fuel. F \<le> fuel \<Longrightarrow>
      mark_connected_fanout_log fuel graph (edge_begin_id (nodes graph ! v))
        (visited[v := color]) color (log @ [v]) = Some (Inr (visited', log'))"
    unfolding fanout_returns_def by blast
  have "mark_connected_log fuel graph (numeric_id_t (Some v)) visited color log
      = Some (Inr (visited', log'))" if "Suc F \<le> fuel" for fuel
  proof -
    from that obtain fuel' where fuel: "fuel = Suc fuel'" and "F \<le> fuel'"
      by (cases fuel) auto
    with F [of fuel'] show ?thesis
      by (simp add: fuel fe v)
  qed
  then show ?thesis
    unfolding mark_returns_def by blast
qed

section \<open>What marking changes\<close>

text \<open>
  \<open>marked adj S visited log visited' log'\<close>: going from \<open>visited\<close> to \<open>visited'\<close>, no
  label is changed; every newly labelled node is reachable from a node of \<open>S\<close> and all
  its neighbours are labelled; and the log grows by the newly labelled nodes, each once.
\<close>

definition marked ::
  "(nat \<Rightarrow> nat set) \<Rightarrow> nat set \<Rightarrow> int list \<Rightarrow> nat list \<Rightarrow> int list \<Rightarrow> nat list \<Rightarrow> bool" where
  "marked adj S visited log visited' log' \<longleftrightarrow>
     length visited' = length visited \<and>
     (\<forall>u < length visited. visited ! u \<noteq> - 1 \<longrightarrow> visited' ! u = visited ! u) \<and>
     (\<forall>u < length visited. visited ! u = - 1 \<longrightarrow> visited' ! u \<noteq> - 1 \<longrightarrow>
        (\<exists>s \<in> S. (s, u) \<in> {(a, b). b \<in> adj a}\<^sup>*) \<and> (\<forall>w \<in> adj u. visited' ! w \<noteq> - 1)) \<and>
     (\<exists>new. log' = log @ new \<and> distinct new \<and>
        set new = {u. u < length visited \<and> visited ! u = - 1 \<and> visited' ! u \<noteq> - 1})"

lemma marked_refl: "marked adj S visited log visited log"
  unfolding marked_def by auto

lemma marked_mono: "marked adj S visited log visited' log' \<Longrightarrow> S \<subseteq> T
    \<Longrightarrow> marked adj T visited log visited' log'"
  unfolding marked_def by blast

lemma marked_trans:
  assumes a: "marked adj S visited log visited1 log1"
    and b: "marked adj T visited1 log1 visited2 log2"
    and adj: "\<forall>u < length visited. \<forall>w \<in> adj u. w < length visited"
  shows "marked adj (S \<union> T) visited log visited2 log2"
proof -
  let ?n = "length visited"
  from a have l1: "length visited1 = ?n"
    and fr1: "\<And>u. u < ?n \<Longrightarrow> visited ! u \<noteq> - 1 \<Longrightarrow> visited1 ! u = visited ! u"
    and nw1: "\<And>u. u < ?n \<Longrightarrow> visited ! u = - 1 \<Longrightarrow> visited1 ! u \<noteq> - 1 \<Longrightarrow>
        (\<exists>s \<in> S. (s, u) \<in> {(a, b). b \<in> adj a}\<^sup>*) \<and> (\<forall>w \<in> adj u. visited1 ! w \<noteq> - 1)"
    unfolding marked_def by auto
  from a obtain new1 where new1: "log1 = log @ new1" "distinct new1"
    "set new1 = {u. u < ?n \<and> visited ! u = - 1 \<and> visited1 ! u \<noteq> - 1}"
    unfolding marked_def by auto
  from b l1 have l2: "length visited2 = ?n"
    and fr2: "\<And>u. u < ?n \<Longrightarrow> visited1 ! u \<noteq> - 1 \<Longrightarrow> visited2 ! u = visited1 ! u"
    and nw2: "\<And>u. u < ?n \<Longrightarrow> visited1 ! u = - 1 \<Longrightarrow> visited2 ! u \<noteq> - 1 \<Longrightarrow>
        (\<exists>s \<in> T. (s, u) \<in> {(a, b). b \<in> adj a}\<^sup>*) \<and> (\<forall>w \<in> adj u. visited2 ! w \<noteq> - 1)"
    unfolding marked_def by auto
  from b l1 obtain new2 where new2: "log2 = log1 @ new2" "distinct new2"
    "set new2 = {u. u < ?n \<and> visited1 ! u = - 1 \<and> visited2 ! u \<noteq> - 1}"
    unfolding marked_def by auto
  have fr: "visited2 ! u = visited ! u" if "u < ?n" "visited ! u \<noteq> - 1" for u
    using that fr1 [of u] fr2 [of u] by simp
  have nw: "(\<exists>s \<in> S \<union> T. (s, u) \<in> {(a, b). b \<in> adj a}\<^sup>*) \<and> (\<forall>w \<in> adj u. visited2 ! w \<noteq> - 1)"
    if u: "u < ?n" "visited ! u = - 1" "visited2 ! u \<noteq> - 1" for u
  proof (cases "visited1 ! u = - 1")
    case True
    with nw2 [of u] u show ?thesis by blast
  next
    case False
    from nw1 [OF u(1,2) False] have r: "\<exists>s \<in> S. (s, u) \<in> {(a, b). b \<in> adj a}\<^sup>*"
      and c: "\<forall>w \<in> adj u. visited1 ! w \<noteq> - 1"
      by simp_all
    have "visited2 ! w \<noteq> - 1" if "w \<in> adj u" for w
    proof -
      from adj u(1) that have "w < ?n" by blast
      with c that fr2 [of w] show ?thesis by simp
    qed
    with r show ?thesis by blast
  qed
  have disj: "set new1 \<inter> set new2 = {}"
    unfolding new1(3) new2(3) by auto
  have un: "set (new1 @ new2) = {u. u < ?n \<and> visited ! u = - 1 \<and> visited2 ! u \<noteq> - 1}"
  proof (rule set_eqI)
    fix u
    show "u \<in> set (new1 @ new2) \<longleftrightarrow> u \<in> {u. u < ?n \<and> visited ! u = - 1 \<and> visited2 ! u \<noteq> - 1}"
    proof (cases "u < ?n")
      case False
      then show ?thesis by (simp add: new1(3) new2(3))
    next
      case True
      show ?thesis
      proof (cases "visited ! u = - 1")
        case False
        with fr1 [OF True False] show ?thesis
          by (simp add: new1(3) new2(3) True)
      next
        case unv: True
        show ?thesis
        proof (cases "visited1 ! u = - 1")
          case True
          then show ?thesis by (simp add: new1(3) new2(3) \<open>u < ?n\<close> unv)
        next
          case False
          with fr2 [OF \<open>u < ?n\<close> False] show ?thesis
            by (simp add: new1(3) new2(3) \<open>u < ?n\<close> unv)
        qed
      qed
    qed
  qed
  have "log2 = log @ (new1 @ new2)" "distinct (new1 @ new2)"
    using new1 new2 disj by simp_all
  with un have "\<exists>new. log2 = log @ new \<and> distinct new \<and>
        set new = {u. u < ?n \<and> visited ! u = - 1 \<and> visited2 ! u \<noteq> - 1}"
    by blast
  with l2 fr nw show ?thesis
    unfolding marked_def by blast
qed

text \<open>The write that opens \<open>mark_connected\<close>, followed by the walk over the edge list.\<close>

lemma marked_node:
  assumes v: "v < length visited" and unv: "visited ! v = - 1" and c: "color \<noteq> - 1"
    and adj: "\<forall>u < length visited. \<forall>w \<in> adj u. w < length visited"
    and f: "marked adj (adj v) (visited[v := color]) (log @ [v]) visited' log'"
    and all: "\<forall>d \<in> adj v. visited' ! d \<noteq> - 1"
  shows "marked adj {v} visited log visited' log'" and "visited' ! v \<noteq> - 1"
proof -
  let ?n = "length visited" and ?v1 = "visited[v := color]"
  from f have l: "length visited' = ?n"
    and fr1: "\<And>u. u < ?n \<Longrightarrow> ?v1 ! u \<noteq> - 1 \<Longrightarrow> visited' ! u = ?v1 ! u"
    and nw1: "\<And>u. u < ?n \<Longrightarrow> ?v1 ! u = - 1 \<Longrightarrow> visited' ! u \<noteq> - 1 \<Longrightarrow>
        (\<exists>s \<in> adj v. (s, u) \<in> {(a, b). b \<in> adj a}\<^sup>*) \<and> (\<forall>w \<in> adj u. visited' ! w \<noteq> - 1)"
    unfolding marked_def by auto
  from f obtain new where new: "log' = (log @ [v]) @ new" "distinct new"
    "set new = {u. u < ?n \<and> ?v1 ! u = - 1 \<and> visited' ! u \<noteq> - 1}"
    unfolding marked_def by auto
  have v1: "?v1 ! v = color" using v by simp
  with fr1 [OF v] c have vv: "visited' ! v = color" by simp
  with c show "visited' ! v \<noteq> - 1" by simp
  have other: "?v1 ! u = visited ! u" if "u \<noteq> v" for u
    using that by simp
  have fr: "visited' ! u = visited ! u" if "u < ?n" "visited ! u \<noteq> - 1" for u
  proof -
    from that unv have "u \<noteq> v" by auto
    with fr1 [OF that(1)] that(2) other show ?thesis by simp
  qed
  have nw: "(\<exists>s \<in> {v}. (s, u) \<in> {(a, b). b \<in> adj a}\<^sup>*) \<and> (\<forall>w \<in> adj u. visited' ! w \<noteq> - 1)"
    if u: "u < ?n" "visited ! u = - 1" "visited' ! u \<noteq> - 1" for u
  proof (cases "u = v")
    case True
    with all show ?thesis by simp
  next
    case False
    with u other have "?v1 ! u = - 1" by simp
    from nw1 [OF u(1) this u(3)] obtain s where s: "s \<in> adj v"
      and r: "(s, u) \<in> {(a, b). b \<in> adj a}\<^sup>*" and cl: "\<forall>w \<in> adj u. visited' ! w \<noteq> - 1"
      by blast
    from s have "(v, s) \<in> {(a, b). b \<in> adj a}" by simp
    from this r have "(v, u) \<in> {(a, b). b \<in> adj a}\<^sup>*"
      by (rule converse_rtrancl_into_rtrancl)
    with cl show ?thesis by simp
  qed
  have notin: "v \<notin> set new"
    unfolding new(3) using v1 c by simp
  have set: "set (v # new) = {u. u < ?n \<and> visited ! u = - 1 \<and> visited' ! u \<noteq> - 1}"
  proof (rule set_eqI)
    fix u
    show "u \<in> set (v # new) \<longleftrightarrow> u \<in> {u. u < ?n \<and> visited ! u = - 1 \<and> visited' ! u \<noteq> - 1}"
    proof (cases "u = v")
      case True
      with v unv vv c show ?thesis by simp
    next
      case False
      with other [OF False] show ?thesis by (simp add: new(3))
    qed
  qed
  have "log' = log @ (v # new)" "distinct (v # new)"
    using new notin by simp_all
  with set have "\<exists>new. log' = log @ new \<and> distinct new \<and>
        set new = {u. u < ?n \<and> visited ! u = - 1 \<and> visited' ! u \<noteq> - 1}"
    by blast
  with l fr nw show "marked adj {v} visited log visited' log'"
    unfolding marked_def by blast
qed

section \<open>Marking from a node\<close>

text \<open>
  A graph whose node array is used in full and whose edges all lead to nodes of the
  array, as the two graphs of the program are.
\<close>

definition whole_graph :: "graph_raw \<Rightarrow> (nat \<Rightarrow> (nat \<times> nat) list) \<Rightarrow> nat \<Rightarrow> bool" where
  "whole_graph graph rows n \<longleftrightarrow>
     graph_rows graph rows \<and> used_nodes graph = n \<and> length (nodes graph) = n \<and>
     (\<forall>v < n. \<forall>d \<in> fst ` set (rows v). d < n)"

definition unvisited :: "int list \<Rightarrow> nat set" where
  "unvisited visited = {u. u < length visited \<and> visited ! u = - 1}"

lemma finite_unvisited: "finite (unvisited visited)"
  unfolding unvisited_def by simp

lemma unvisited_update:
  assumes "v < length visited" and "visited ! v = - 1" and "color \<noteq> - 1"
  shows "card (unvisited (visited[v := color])) < card (unvisited visited)"
proof -
  have eq: "unvisited (visited[v := color]) = unvisited visited - {v}"
    using assms by (auto simp: unvisited_def nth_list_update)
  have "v \<in> unvisited visited"
    using assms by (simp add: unvisited_def)
  then show ?thesis
    unfolding eq by (rule card_Diff1_less [OF finite_unvisited])
qed

lemma unvisited_update_le:
  assumes "color \<noteq> - 1"
  shows "card (unvisited (visited[v := color])) \<le> card (unvisited visited)"
proof -
  have "visited ! x = - 1" if "x < length visited" "visited[v := color] ! x = - 1" for x
    using that assms by (cases "x = v") simp_all
  then have "unvisited (visited[v := color]) \<subseteq> unvisited visited"
    by (auto simp: unvisited_def)
  then show ?thesis
    by (rule card_mono [OF finite_unvisited])
qed

lemma unvisited_marked:
  assumes "marked adj S visited log visited' log'"
  shows "card (unvisited visited') \<le> card (unvisited visited)"
proof -
  from assms have l: "length visited' = length visited"
    and fr: "\<And>u. u < length visited \<Longrightarrow> visited ! u \<noteq> - 1 \<Longrightarrow> visited' ! u = visited ! u"
    unfolding marked_def by auto
  have "unvisited visited' \<subseteq> unvisited visited"
    unfolding unvisited_def l using fr by force
  then show ?thesis
    by (rule card_mono [OF finite_unvisited])
qed

lemma fanout_total:
  assumes wg: "whole_graph graph rows n" and c: "color \<noteq> - 1"
  shows "length visited = n \<Longrightarrow> card (unvisited visited) \<le> k \<Longrightarrow>
     edge_list (edges graph) e row \<Longrightarrow> fst ` set row \<subseteq> {..<n} \<Longrightarrow>
     \<exists>visited' log'.
        fanout_returns graph e visited color log visited' log'
      \<and> marked (\<lambda>v. fst ` set (rows v)) (fst ` set row) visited log visited' log'
      \<and> (\<forall>d \<in> fst ` set row. visited' ! d \<noteq> - 1)"
proof (induction k arbitrary: visited e row log rule: less_induct)
  case (less k)
  let ?adj = "\<lambda>v. fst ` set (rows v)"
  from wg have gr: "graph_rows graph rows" and ln: "length (nodes graph) = n"
    and inb: "\<And>v d. v < n \<Longrightarrow> d \<in> ?adj v \<Longrightarrow> d < n"
    unfolding whole_graph_def by auto
  have adjn: "\<forall>u < length vis. \<forall>w \<in> ?adj u. w < length vis" if "length vis = n" for vis :: "int list"
    using that inb by auto
  from less.prems show ?case
  proof (induction row arbitrary: visited e log)
    case Nil
    then have "e = None" by (cases e) auto
    then show ?case
      using fanout_returns_None [of graph visited color log] marked_refl [of ?adj "{}" visited log]
      by auto
  next
    case (Cons x row)
    obtain d i where x: "x = (d, i)" by (cases x)
    from Cons.prems(3) have e: "e = Some (numeric_id_t (Some i))"
      and i: "i < length (edge_memory (edges graph))"
      and dst: "edge_dst_node (edge_memory (edges graph) ! i) = numeric_id_t (Some d)"
      and nxt: "edge_list (edges graph) (edge_next_edge (edge_memory (edges graph) ! i)) row"
      by (cases e; simp add: x)+
    from Cons.prems(4) have dn: "d < n" and rown: "fst ` set row \<subseteq> {..<n}"
      by (auto simp: x)
    note len = Cons.prems(1)
    have step1: "\<exists>visited1 log1.
        (if visited ! d = - 1 then mark_returns graph d visited color log visited1 log1
         else visited1 = visited \<and> log1 = log)
      \<and> marked ?adj {d} visited log visited1 log1 \<and> visited1 ! d \<noteq> - 1"
    proof (cases "visited ! d = - 1")
      case False
      then show ?thesis
        using marked_refl [of ?adj "{d}" visited log] by auto
    next
      case True
      let ?v0 = "visited[d := color]"
      have "card (unvisited ?v0) < card (unvisited visited)"
        using dn len True c by (intro unvisited_update) simp_all
      with Cons.prems(2) have lt: "card (unvisited ?v0) < k" by simp
      have el: "edge_list (edges graph) (edge_begin_id (nodes graph ! d)) (rows d)"
        using gr dn ln by (simp add: graph_rows_def)
      have sub: "fst ` set (rows d) \<subseteq> {..<n}"
        using inb [OF dn] by auto
      from less.IH [OF lt _ order_refl el sub, of "log @ [d]"] len
      obtain visited1 log1 where
        f: "fanout_returns graph (edge_begin_id (nodes graph ! d)) ?v0 color (log @ [d])
              visited1 log1"
        and m: "marked ?adj (?adj d) ?v0 (log @ [d]) visited1 log1"
        and a: "\<forall>d' \<in> ?adj d. visited1 ! d' \<noteq> - 1"
        by auto
      have "mark_returns graph d visited color log visited1 log1"
        using dn len ln f by (intro mark_returns_intro) simp_all
      moreover have "marked ?adj {d} visited log visited1 log1" "visited1 ! d \<noteq> - 1"
        using marked_node [OF _ True c adjn [OF len] m a] dn len by simp_all
      ultimately show ?thesis
        using True by auto
    qed
    then obtain visited1 log1 where
      r1: "if visited ! d = - 1 then mark_returns graph d visited color log visited1 log1
         else visited1 = visited \<and> log1 = log"
      and m1: "marked ?adj {d} visited log visited1 log1" and d1: "visited1 ! d \<noteq> - 1"
      by blast
    from m1 len have len1: "length visited1 = n"
      unfolding marked_def by simp
    have k1: "card (unvisited visited1) \<le> k"
      using unvisited_marked [OF m1] Cons.prems(2) by simp
    from Cons.IH [OF len1 k1 nxt rown, of log1] obtain visited' log' where
      f2: "fanout_returns graph (edge_next_edge (edge_memory (edges graph) ! i)) visited1 color
             log1 visited' log'"
      and m2: "marked ?adj (fst ` set row) visited1 log1 visited' log'"
      and a2: "\<forall>d' \<in> fst ` set row. visited' ! d' \<noteq> - 1"
      by blast
    have ret: "fanout_returns graph e visited color log visited' log'"
      unfolding e using i dst _ r1 f2 by (rule fanout_returns_Some) (simp add: len dn)
    have m: "marked ?adj (fst ` set (x # row)) visited log visited' log'"
      using marked_trans [OF m1 m2 adjn [OF len]] by (simp add: x)
    from m2 len1 dn d1 have "visited' ! d = visited1 ! d"
      unfolding marked_def by simp
    with d1 a2 have "\<forall>d' \<in> fst ` set (x # row). visited' ! d' \<noteq> - 1"
      by (simp add: x)
    with ret m show ?case by blast
  qed
qed

lemma mark_total_any:
  assumes wg: "whole_graph graph rows n" and c: "color \<noteq> - 1"
    and len: "length visited = n" and v: "v < n"
  shows "\<exists>visited' log'.
        mark_returns graph v visited color log visited' log'
      \<and> marked (\<lambda>v. fst ` set (rows v)) (fst ` set (rows v)) (visited[v := color]) (log @ [v])
           visited' log'
      \<and> (\<forall>d \<in> fst ` set (rows v). visited' ! d \<noteq> - 1)"
proof -
  from wg have gr: "graph_rows graph rows" and ln: "length (nodes graph) = n"
    and inb: "\<And>v d. v < n \<Longrightarrow> d \<in> fst ` set (rows v) \<Longrightarrow> d < n"
    unfolding whole_graph_def by auto
  have el: "edge_list (edges graph) (edge_begin_id (nodes graph ! v)) (rows v)"
    using gr v ln by (simp add: graph_rows_def)
  have sub: "fst ` set (rows v) \<subseteq> {..<n}"
    using inb [OF v] by auto
  from fanout_total [OF wg c _ order_refl el sub, of "visited[v := color]" "log @ [v]"] len
  obtain visited' log' where
    f: "fanout_returns graph (edge_begin_id (nodes graph ! v)) (visited[v := color]) color
          (log @ [v]) visited' log'"
    and m: "marked (\<lambda>v. fst ` set (rows v)) (fst ` set (rows v)) (visited[v := color])
          (log @ [v]) visited' log'"
    and a: "\<forall>d \<in> fst ` set (rows v). visited' ! d \<noteq> - 1"
    by auto
  have "mark_returns graph v visited color log visited' log'"
    using v len ln f by (intro mark_returns_intro) simp_all
  with m a show ?thesis by blast
qed

lemma mark_total:
  assumes wg: "whole_graph graph rows n" and c: "color \<noteq> - 1"
    and len: "length visited = n" and v: "v < n" and unv: "visited ! v = - 1"
  shows "\<exists>visited' log'.
        mark_returns graph v visited color log visited' log'
      \<and> marked (\<lambda>v. fst ` set (rows v)) {v} visited log visited' log'
      \<and> visited' ! v \<noteq> - 1"
proof -
  from wg have inb: "\<And>v d. v < n \<Longrightarrow> d \<in> fst ` set (rows v) \<Longrightarrow> d < n"
    unfolding whole_graph_def by auto
  have adjn: "\<forall>u < length visited. \<forall>w \<in> fst ` set (rows u). w < length visited"
    using len inb by auto
  from mark_total_any [OF wg c len v, of log] obtain visited' log' where
    r: "mark_returns graph v visited color log visited' log'"
    and m: "marked (\<lambda>v. fst ` set (rows v)) (fst ` set (rows v)) (visited[v := color])
          (log @ [v]) visited' log'"
    and a: "\<forall>d \<in> fst ` set (rows v). visited' ! d \<noteq> - 1"
    by blast
  from marked_node [OF _ unv c adjn m a] v len
  have "marked (\<lambda>v. fst ` set (rows v)) {v} visited log visited' log'" "visited' ! v \<noteq> - 1"
    by simp_all
  with r show ?thesis by blast
qed

section \<open>Connected components\<close>

text \<open>
  The undirected closure of a list of directed edges, connectedness of two nodes below
  \<open>n\<close>, and the connected components of the graph with the nodes \<open>0, \<dots>, n - 1\<close>.
\<close>

definition undirected :: "(nat \<times> nat) list \<Rightarrow> (nat \<times> nat) set" where
  "undirected ps = set ps \<union> (set ps)\<inverse>"

definition connected :: "nat \<Rightarrow> (nat \<times> nat) set \<Rightarrow> (nat \<times> nat) set" where
  "connected n E = {(a, b). a < n \<and> b < n \<and> (a, b) \<in> E\<^sup>*}"

definition components :: "nat \<Rightarrow> (nat \<times> nat) list \<Rightarrow> nat set set" where
  "components n ps = {..<n} // connected n (undirected ps)"

lemma sym_undirected: "sym (undirected ps)"
  unfolding undirected_def sym_def by auto

lemma equiv_connected:
  assumes "sym E"
  shows "equiv {..<n} (connected n E)"
proof (rule equivI)
  show "connected n E \<subseteq> {..<n} \<times> {..<n}"
    unfolding connected_def by auto
  show "refl_on {..<n} (connected n E)"
    unfolding refl_on_def connected_def by auto
  show "sym (connected n E)"
    unfolding sym_def connected_def
    using sym_rtrancl [OF assms] by (auto dest: symD)
  show "trans (connected n E)"
    unfolding trans_def connected_def by auto
qed

lemma connected_class:
  assumes "E \<subseteq> {..<n} \<times> {..<n}" and "i < n"
  shows "connected n E `` {i} = E\<^sup>* `` {i}"
proof -
  have "b < n" if "(i, b) \<in> E\<^sup>*" for b
    using that assms by (induction rule: rtrancl_induct) auto
  then show ?thesis
    using assms(2) unfolding connected_def by auto
qed

lemma closed_rtrancl:
  assumes "\<forall>u \<in> M. \<forall>w. (u, w) \<in> E \<longrightarrow> w \<in> M" and "(a, b) \<in> E\<^sup>*" and "a \<in> M"
  shows "b \<in> M"
  using assms(2,3,1) by (induction rule: rtrancl_induct) auto

lemma component_step:
  assumes eq: "equiv A R" and fin: "finite A" and M: "M \<subseteq> A" and sat: "R `` M \<subseteq> M"
    and i: "i \<in> A" "i \<notin> M"
  shows "card ((M \<union> R `` {i}) // R) = Suc (card (M // R))"
proof -
  let ?C = "R `` {i}"
  have cls: "R `` {x} = ?C" if "x \<in> ?C" for x
    using that eq by (simp add: equiv_class_eq_iff)
  have ii: "i \<in> ?C"
    using eq i(1) by (rule equiv_class_self)
  have "(\<Union>x\<in>?C. {R `` {x}}) = (\<Union>x\<in>?C. {?C})"
    by (rule SUP_cong [OF refl]) (simp only: cls)
  also have "\<dots> = {?C}"
    using ii by blast
  finally have "?C // R = {?C}"
    unfolding quotient_def .
  moreover have "(M \<union> ?C) // R = M // R \<union> ?C // R"
    unfolding quotient_def by blast
  ultimately have split: "(M \<union> ?C) // R = insert ?C (M // R)"
    by simp
  have notin: "?C \<notin> M // R"
  proof
    assume "?C \<in> M // R"
    then obtain x where x: "x \<in> M" "?C = R `` {x}"
      unfolding quotient_def by auto
    with ii have "i \<in> R `` M" by auto
    with sat i(2) show False by auto
  qed
  have "finite M" using M fin by (rule finite_subset)
  then have "finite (M // R)"
    unfolding quotient_def by simp
  with notin show ?thesis
    unfolding split by simp
qed

lemma undirected_swap: "undirected (map prod.swap ps) = undirected ps"
  unfolding undirected_def by auto

section \<open>Counting returns the number of components\<close>

definition labelled :: "int list \<Rightarrow> nat set" where
  "labelled visited = {u. u < length visited \<and> visited ! u \<noteq> - 1}"

lemma count_loop_total:
  fixes rows :: "nat \<Rightarrow> (nat \<times> nat) list"
  defines "E \<equiv> {(a, b). b \<in> fst ` set (rows a)}"
  assumes wg: "whole_graph graph rows n" and symE: "sym E" and inE: "E \<subseteq> {..<n} \<times> {..<n}"
  shows "length visited = n \<Longrightarrow> i \<le> n \<Longrightarrow>
     (\<forall>u \<in> labelled visited. \<forall>w. (u, w) \<in> E \<longrightarrow> w \<in> labelled visited) \<Longrightarrow>
     {..<i} \<subseteq> labelled visited \<Longrightarrow>
     color = int (card (labelled visited // connected n E)) \<Longrightarrow>
     distinct log \<Longrightarrow> set log = labelled visited \<Longrightarrow>
     \<exists>F log'. (\<forall>fuel \<ge> F. count_connected_loop_log fuel graph i visited color log
                   = Some (Inr (int (card ({..<n} // connected n E)), log')))
       \<and> distinct log' \<and> set log' = {..<n}"
proof (induction "n - i" arbitrary: i visited color log)
  case 0
  from "0.hyps" "0.prems"(2) have i: "i = n" by simp
  have "labelled visited \<subseteq> {..<n}"
    unfolding labelled_def "0.prems"(1) by auto
  with "0.prems"(4) have "labelled visited = {..<n}"
    unfolding i by auto
  moreover have "count_connected_loop_log fuel graph i visited color log
      = Some (Inr (color, log))" for fuel
    using wg i by (subst count_connected_loop_log.simps)
      (simp add: get_num_nodes_def whole_graph_def)
  ultimately show ?case
    using "0.prems"(5,6,7) by auto
next
  case (Suc k)
  let ?R = "connected n E" and ?M = "labelled visited"
  from Suc.hyps(2) have i: "i < n" and k: "k = n - (i + 1)" and i1: "i + 1 \<le> n" by simp_all
  note len = Suc.prems(1) and closed = Suc.prems(3) and below = Suc.prems(4)
    and col = Suc.prems(5) and dist = Suc.prems(6) and slog = Suc.prems(7)
  from wg have used: "get_num_nodes graph = n"
    by (simp add: get_num_nodes_def whole_graph_def)
  have at: "array_at visited i = Inr (visited ! i)"
    using i len by (simp add: array_at_def)
  show ?case
  proof (cases "visited ! i = - 1")
    case False
    with i len have "i \<in> ?M" by (simp add: labelled_def)
    with below have "{..<i + 1} \<subseteq> ?M"
      by (auto simp: less_Suc_eq)
    from Suc.hyps(1) [OF k len i1 closed this col dist slog]
    obtain F log' where F: "\<And>fuel. F \<le> fuel \<Longrightarrow>
        count_connected_loop_log fuel graph (i + 1) visited color log
          = Some (Inr (int (card ({..<n} // ?R)), log'))"
      and r: "distinct log'" "set log' = {..<n}"
      by blast
    have "count_connected_loop_log fuel graph i visited color log
        = Some (Inr (int (card ({..<n} // ?R)), log'))" if "F \<le> fuel" for fuel
      using F [OF that] i False
      by (subst count_connected_loop_log.simps) (simp add: used at)
    with r show ?thesis by blast
  next
    case True
    have c: "color \<noteq> - 1" using col by simp
    from mark_total [OF wg c len i True, of log] obtain visited' log1 where
      mr: "mark_returns graph i visited color log visited' log1"
      and mk: "marked (\<lambda>v. fst ` set (rows v)) {i} visited log visited' log1"
      and vi: "visited' ! i \<noteq> - 1"
      by blast
    let ?M' = "labelled visited'"
    from mk len have len': "length visited' = n"
      and fr: "\<And>u. u < n \<Longrightarrow> visited ! u \<noteq> - 1 \<Longrightarrow> visited' ! u = visited ! u"
      and nw: "\<And>u. u < n \<Longrightarrow> visited ! u = - 1 \<Longrightarrow> visited' ! u \<noteq> - 1 \<Longrightarrow>
          (i, u) \<in> E\<^sup>* \<and> (\<forall>w \<in> fst ` set (rows u). visited' ! w \<noteq> - 1)"
      unfolding marked_def E_def by auto
    from mk len obtain new where new: "log1 = log @ new" "distinct new"
      "set new = {u. u < n \<and> visited ! u = - 1 \<and> visited' ! u \<noteq> - 1}"
      unfolding marked_def by auto
    have M': "?M' = ?M \<union> set new"
      unfolding labelled_def new(3) len len' using fr by force
    have disj: "?M \<inter> set new = {}"
      unfolding labelled_def new(3) by auto
    have iM: "i \<notin> ?M" using True by (simp add: labelled_def)
    have iM': "i \<in> ?M'" using vi i len' by (simp add: labelled_def)
    have closed': "\<forall>u \<in> ?M'. \<forall>w. (u, w) \<in> E \<longrightarrow> w \<in> ?M'"
    proof (intro ballI allI impI)
      fix u w
      assume u: "u \<in> ?M'" and uw: "(u, w) \<in> E"
      from uw inE have wn: "w < n" by auto
      show "w \<in> ?M'"
      proof (cases "u \<in> ?M")
        case True
        with closed uw have "w \<in> ?M" by blast
        then show ?thesis unfolding M' by simp
      next
        case False
        with u have "u \<in> set new" unfolding M' by simp
        then have "u < n" "visited ! u = - 1" "visited' ! u \<noteq> - 1"
          unfolding new(3) by simp_all
        from nw [OF this] uw have "visited' ! w \<noteq> - 1"
          unfolding E_def by auto
        with wn len' show ?thesis by (simp add: labelled_def)
      qed
    qed
    have new_sub: "set new \<subseteq> E\<^sup>* `` {i}"
      unfolding new(3) using nw by auto
    have reach_sub: "E\<^sup>* `` {i} \<subseteq> ?M'"
      using closed_rtrancl [OF closed' _ iM'] by auto
    have reach_disj: "E\<^sup>* `` {i} \<inter> ?M = {}"
    proof (rule ccontr)
      assume "E\<^sup>* `` {i} \<inter> ?M \<noteq> {}"
      then obtain x where x: "(i, x) \<in> E\<^sup>*" "x \<in> ?M" by auto
      from x(1) sym_rtrancl [OF symE] have "(x, i) \<in> E\<^sup>*" by (auto dest: symD)
      from closed_rtrancl [OF closed this x(2)] iM show False by simp
    qed
    have new_eq: "set new = E\<^sup>* `` {i}"
      using new_sub reach_sub reach_disj unfolding M' by auto
    have cls: "?R `` {i} = E\<^sup>* `` {i}"
      by (rule connected_class [OF inE i])
    have M'R: "?M' = ?M \<union> ?R `` {i}"
      unfolding M' new_eq cls ..
    have eq: "equiv {..<n} ?R" by (rule equiv_connected [OF symE])
    have Msub: "?M \<subseteq> {..<n}" unfolding labelled_def len by auto
    have sat: "?R `` ?M \<subseteq> ?M"
    proof
      fix y assume "y \<in> ?R `` ?M"
      then obtain x where "x \<in> ?M" "(x, y) \<in> E\<^sup>*"
        unfolding connected_def by auto
      from closed_rtrancl [OF closed this(2,1)] show "y \<in> ?M" .
    qed
    have "card (?M' // ?R) = Suc (card (?M // ?R))"
      unfolding M'R using eq _ Msub sat _ iM by (rule component_step) (simp_all add: i)
    with col have col': "color + 1 = int (card (?M' // ?R))" by simp
    have below': "{..<i + 1} \<subseteq> ?M'"
      using below iM' unfolding M' by (auto simp: less_Suc_eq)
    have dist': "distinct log1"
      using dist new(2) disj slog unfolding new(1) by auto
    have slog': "set log1 = ?M'"
      unfolding new(1) M' using slog by simp
    from Suc.hyps(1) [OF k len' i1 closed' below' col' dist' slog']
    obtain F2 log' where F2: "\<And>fuel. F2 \<le> fuel \<Longrightarrow>
        count_connected_loop_log fuel graph (i + 1) visited' (color + 1) log1
          = Some (Inr (int (card ({..<n} // ?R)), log'))"
      and r: "distinct log'" "set log' = {..<n}"
      by blast
    from mr obtain F1 where F1: "\<And>fuel. F1 \<le> fuel \<Longrightarrow>
        mark_connected_log fuel graph (numeric_id_t (Some i)) visited color log
          = Some (Inr (visited', log1))"
      unfolding mark_returns_def by blast
    have "count_connected_loop_log fuel graph i visited color log
        = Some (Inr (int (card ({..<n} // ?R)), log'))" if "max F1 F2 \<le> fuel" for fuel
    proof -
      from that have "F1 \<le> fuel" "F2 \<le> fuel" by simp_all
      with F1 [of fuel] F2 [of fuel] i True show ?thesis
        by (subst count_connected_loop_log.simps) (simp add: used at)
    qed
    with r show ?thesis by blast
  qed
qed

lemma count_connected_total:
  fixes rows :: "nat \<Rightarrow> (nat \<times> nat) list"
  assumes wg: "whole_graph graph rows n"
    and adj: "\<forall>v. fst ` set (rows v) = {d. (v, d) \<in> undirected ps}"
    and inb: "\<forall>p \<in> set ps. fst p < n \<and> snd p < n"
  shows "\<exists>F log. (\<forall>fuel \<ge> F. count_connected_log fuel n graph
                   = Some (Inr (int (card (components n ps)), log)))
       \<and> distinct log \<and> set log = {..<n}"
proof -
  let ?E = "{(a, b). b \<in> fst ` set (rows a)}"
  have E: "?E = undirected ps"
    using adj by auto
  have symE: "sym ?E" unfolding E by (rule sym_undirected)
  have inE: "?E \<subseteq> {..<n} \<times> {..<n}"
    unfolding E undirected_def using inb by auto
  let ?v0 = "replicate n (- 1 :: int)"
  have l0: "labelled ?v0 = {}"
    unfolding labelled_def by auto
  have "\<exists>F log'. (\<forall>fuel \<ge> F. count_connected_loop_log fuel graph 0 ?v0 0 []
                   = Some (Inr (int (card ({..<n} // connected n ?E)), log')))
       \<and> distinct log' \<and> set log' = {..<n}"
    by (rule count_loop_total [OF wg symE inE]) (simp_all add: l0)
  then show ?thesis
    unfolding count_connected_log_def components_def E .
qed

section \<open>The whole program\<close>

lemma connected_subgraphs_total:
  assumes "well_formed count es trailing"
  shows "\<exists>F. \<forall>fuel \<ge> F. connected_subgraphs fuel (graph_text_of count es trailing)
     = Some (Inr (int (card (components (decimal count) (map edge_of es)))))"
proof -
  let ?text = "graph_text_of count es trailing"
  let ?n = "decimal count" and ?ps = "map edge_of es"
  from pipeline_graphs [OF assms] obtain graph bidir_graph rows where
    g: "read_graph (max_graph_nodes ?text) (max_graph_edges ?text) ?text = Inr graph"
    and b: "double_up_edges (max_graph_nodes ?text) (max_graph_edges ?text) graph
           = Inr bidir_graph"
    and mn: "max_graph_nodes ?text = ?n"
    and gr: "graph_rows bidir_graph rows" and u: "used_nodes bidir_graph = ?n"
    and ln: "length (nodes bidir_graph) = ?n"
    and adj: "\<forall>v. fst ` set (rows v) = {d. (v, d) \<in> set ?ps \<union> (set ?ps)\<inverse>}"
    by blast
  from assms have e: "list_all (is_edge_text ?n) es"
    by (simp add: well_formed_def)
  note inb = edge_of_bounds [OF e]
  have "\<forall>v < ?n. \<forall>d \<in> fst ` set (rows v). d < ?n"
    using adj inb by auto
  with gr u ln have wg: "whole_graph bidir_graph rows ?n"
    by (simp add: whole_graph_def)
  from adj have adj': "\<forall>v. fst ` set (rows v) = {d. (v, d) \<in> undirected ?ps}"
    by (simp add: undirected_def)
  from count_connected_total [OF wg adj' inb] obtain F log where
    F: "\<And>fuel. F \<le> fuel \<Longrightarrow> count_connected_log fuel ?n bidir_graph
          = Some (Inr (int (card (components ?n ?ps)), log))"
    by blast
  have "connected_subgraphs fuel ?text = Some (Inr (int (card (components ?n ?ps))))"
    if "F \<le> fuel" for fuel
  proof -
    have "count_connected fuel ?n bidir_graph
        = erase_log (count_connected_log fuel ?n bidir_graph)"
      by (simp only: count_connected_log_erase)
    also have "\<dots> = Some (Inr (int (card (components ?n ?ps))))"
      by (simp only: F [OF that] erase_log_simps)
    finally show ?thesis
      using g b unfolding connected_subgraphs_def mn by simp
  qed
  then show ?thesis by blast
qed

text \<open>
  C1. For every well-formed text with node count \<open>N\<close> and edge pairs with both ends
  below \<open>N\<close>, the chain \<open>read_graph\<close>, \<open>double_up_edges\<close>, \<open>count_connected\<close>
  returns (with enough fuel for the recursion, and with any more) a non-negative integer,
  the number of connected components of the undirected closure of the described graph:
  the number of classes of the nodes \<open>0, \<dots>, N - 1\<close> under reachability along the
  edges taken in both directions.
\<close>

theorem connected_subgraphs_is_component_count:
  assumes "well_formed count es trailing"
  shows "\<exists>F. \<forall>fuel \<ge> F. \<exists>k \<ge> 0.
       connected_subgraphs fuel (graph_text_of count es trailing) = Some (Inr k)
     \<and> k = int (card ({..<decimal count} //
           connected (decimal count) (undirected (map edge_of es))))"
  using connected_subgraphs_total [OF assms] unfolding components_def by simp

lemma example_edges:
  "map edge_of [(''  '', ''0'', '' '', ''1''), (''  '', ''2'', '' '', ''3'')] = [(0, 1), (2, 3)]"
  by (simp add: decimal_def)

theorem connected_subgraphs_is_component_count_witness:
  "(\<exists>F. \<forall>fuel \<ge> F. \<exists>k \<ge> 0.
       connected_subgraphs fuel ''4  0 1  2 3'' = Some (Inr k)
     \<and> k = int (card ({..<4} // connected 4 (undirected [(0, 1), (2, 3)]))))
   \<and> connected_subgraphs 20 ''4  0 1  2 3'' = Some (Inr 2)"
proof -
  have d: "decimal ''4'' = 4" by (simp add: decimal_def)
  have t: "graph_text_of ''4'' [(''  '', ''0'', '' '', ''1''), (''  '', ''2'', '' '', ''3'')] []
      = ''4  0 1  2 3''"
    by (simp add: graph_text_of_def)
  have run: "connected_subgraphs 20 ''4  0 1  2 3'' = Some (Inr 2)"
    by code_simp
  from connected_subgraphs_is_component_count [OF well_formed_example] run
  show ?thesis
    unfolding d t example_edges by blast
qed

section \<open>Reversing every edge\<close>

text \<open>The text in which every pair \<open>(s, d)\<close> is replaced by \<open>(d, s)\<close>.\<close>

fun swap_edge :: "edge_text \<Rightarrow> edge_text" where
  "swap_edge (sep1, src, sep2, dst) = (sep1, dst, sep2, src)"

lemma length_edges_text_swap: "length (edges_text (map swap_edge es)) = length (edges_text es)"
  by (induction es rule: edges_text.induct) simp_all

lemma well_formed_swap:
  assumes "well_formed count es trailing"
  shows "well_formed count (map swap_edge es) trailing"
proof -
  have "list_all (is_edge_text n) (map swap_edge es)" if "list_all (is_edge_text n) es" for n
    using that by (induction es rule: edges_text.induct) simp_all
  with assms show ?thesis
    by (simp add: well_formed_def graph_text_of_def length_edges_text_swap)
qed

lemma edge_of_swap: "map edge_of (map swap_edge es) = map prod.swap (map edge_of es)"
  by (induction es rule: edges_text.induct) simp_all

text \<open>
  C6. For a well-formed text, the text with every edge pair reversed is well formed too,
  and the program returns the same count for both.
\<close>

theorem component_count_direction_invariant:
  assumes "well_formed count es trailing"
  shows "\<exists>F k. \<forall>fuel \<ge> F.
       connected_subgraphs fuel (graph_text_of count es trailing) = Some (Inr k)
     \<and> connected_subgraphs fuel (graph_text_of count (map swap_edge es) trailing) = Some (Inr k)"
proof -
  let ?k = "int (card (components (decimal count) (map edge_of es)))"
  from connected_subgraphs_total [OF assms] obtain F1 where
    F1: "\<And>fuel. F1 \<le> fuel \<Longrightarrow>
      connected_subgraphs fuel (graph_text_of count es trailing) = Some (Inr ?k)"
    by blast
  have c: "components (decimal count) (map edge_of (map swap_edge es))
      = components (decimal count) (map edge_of es)"
    unfolding components_def edge_of_swap undirected_swap ..
  from connected_subgraphs_total [OF well_formed_swap [OF assms]] obtain F2 where
    F2: "\<And>fuel. F2 \<le> fuel \<Longrightarrow>
      connected_subgraphs fuel (graph_text_of count (map swap_edge es) trailing) = Some (Inr ?k)"
    unfolding c by blast
  have "connected_subgraphs fuel (graph_text_of count es trailing) = Some (Inr ?k)
     \<and> connected_subgraphs fuel (graph_text_of count (map swap_edge es) trailing) = Some (Inr ?k)"
    if "max F1 F2 \<le> fuel" for fuel
    using that F1 [of fuel] F2 [of fuel] by simp
  then show ?thesis by blast
qed

theorem component_count_direction_invariant_witness:
  "(\<exists>F k. \<forall>fuel \<ge> F.
       connected_subgraphs fuel ''4  0 1  2 3'' = Some (Inr k)
     \<and> connected_subgraphs fuel ''4  1 0  3 2'' = Some (Inr k))
   \<and> connected_subgraphs 20 ''4  0 1  2 3'' = Some (Inr 2)
   \<and> connected_subgraphs 20 ''4  1 0  3 2'' = Some (Inr 2)"
proof -
  have t: "graph_text_of ''4'' [(''  '', ''0'', '' '', ''1''), (''  '', ''2'', '' '', ''3'')] []
      = ''4  0 1  2 3''"
    "graph_text_of ''4'' (map swap_edge
        [(''  '', ''0'', '' '', ''1''), (''  '', ''2'', '' '', ''3'')]) [] = ''4  1 0  3 2''"
    by (simp_all add: graph_text_of_def)
  have run: "connected_subgraphs 20 ''4  0 1  2 3'' = Some (Inr 2)"
    "connected_subgraphs 20 ''4  1 0  3 2'' = Some (Inr 2)"
    by code_simp+
  from component_count_direction_invariant [OF well_formed_example] run
  show ?thesis
    unfolding t by blast
qed

section \<open>Every node is labelled once\<close>

lemma count_loop_labels_once:
  assumes wg: "whole_graph graph rows n"
  shows "length visited = n \<Longrightarrow> i \<le> n \<Longrightarrow> {..<i} \<subseteq> labelled visited \<Longrightarrow> 0 \<le> color \<Longrightarrow>
     distinct log \<Longrightarrow> set log = labelled visited \<Longrightarrow>
     \<exists>F k log'. (\<forall>fuel \<ge> F. count_connected_loop_log fuel graph i visited color log
                   = Some (Inr (k, log')))
       \<and> distinct log' \<and> set log' = {..<n}"
proof (induction "n - i" arbitrary: i visited color log)
  case 0
  from "0.hyps" "0.prems"(2) have i: "i = n" by simp
  have "labelled visited \<subseteq> {..<n}"
    unfolding labelled_def "0.prems"(1) by auto
  with "0.prems"(3) have "labelled visited = {..<n}"
    unfolding i by auto
  moreover have "count_connected_loop_log fuel graph i visited color log
      = Some (Inr (color, log))" for fuel
    using wg i by (subst count_connected_loop_log.simps)
      (simp add: get_num_nodes_def whole_graph_def)
  ultimately show ?case
    using "0.prems"(5,6) by auto
next
  case (Suc m)
  let ?M = "labelled visited"
  from Suc.hyps(2) have i: "i < n" and m: "m = n - (i + 1)" and i1: "i + 1 \<le> n" by simp_all
  note len = Suc.prems(1) and below = Suc.prems(3) and col = Suc.prems(4)
    and dist = Suc.prems(5) and slog = Suc.prems(6)
  from wg have used: "get_num_nodes graph = n"
    by (simp add: get_num_nodes_def whole_graph_def)
  have at: "array_at visited i = Inr (visited ! i)"
    using i len by (simp add: array_at_def)
  show ?case
  proof (cases "visited ! i = - 1")
    case False
    with i len have "i \<in> ?M" by (simp add: labelled_def)
    with below have "{..<i + 1} \<subseteq> ?M"
      by (auto simp: less_Suc_eq)
    from Suc.hyps(1) [OF m len i1 this col dist slog]
    obtain F k log' where F: "\<And>fuel. F \<le> fuel \<Longrightarrow>
        count_connected_loop_log fuel graph (i + 1) visited color log = Some (Inr (k, log'))"
      and r: "distinct log'" "set log' = {..<n}"
      by blast
    have "count_connected_loop_log fuel graph i visited color log = Some (Inr (k, log'))"
      if "F \<le> fuel" for fuel
      using F [OF that] i False
      by (subst count_connected_loop_log.simps) (simp add: used at)
    with r show ?thesis by blast
  next
    case True
    have c: "color \<noteq> - 1" using col by simp
    from mark_total [OF wg c len i True, of log] obtain visited' log1 where
      mr: "mark_returns graph i visited color log visited' log1"
      and mk: "marked (\<lambda>v. fst ` set (rows v)) {i} visited log visited' log1"
      and vi: "visited' ! i \<noteq> - 1"
      by blast
    let ?M' = "labelled visited'"
    from mk len have len': "length visited' = n"
      and fr: "\<And>u. u < n \<Longrightarrow> visited ! u \<noteq> - 1 \<Longrightarrow> visited' ! u = visited ! u"
      unfolding marked_def by auto
    from mk len obtain new where new: "log1 = log @ new" "distinct new"
      "set new = {u. u < n \<and> visited ! u = - 1 \<and> visited' ! u \<noteq> - 1}"
      unfolding marked_def by auto
    have M': "?M' = ?M \<union> set new"
      unfolding labelled_def new(3) len len' using fr by force
    have disj: "?M \<inter> set new = {}"
      unfolding labelled_def new(3) by auto
    have iM': "i \<in> ?M'" using vi i len' by (simp add: labelled_def)
    have below': "{..<i + 1} \<subseteq> ?M'"
      using below iM' unfolding M' by (auto simp: less_Suc_eq)
    have dist': "distinct log1"
      using dist new(2) disj slog unfolding new(1) by auto
    have slog': "set log1 = ?M'"
      unfolding new(1) M' using slog by simp
    have col': "0 \<le> color + 1" using col by simp
    from Suc.hyps(1) [OF m len' i1 below' col' dist' slog']
    obtain F2 k log' where F2: "\<And>fuel. F2 \<le> fuel \<Longrightarrow>
        count_connected_loop_log fuel graph (i + 1) visited' (color + 1) log1
          = Some (Inr (k, log'))"
      and r: "distinct log'" "set log' = {..<n}"
      by blast
    from mr obtain F1 where F1: "\<And>fuel. F1 \<le> fuel \<Longrightarrow>
        mark_connected_log fuel graph (numeric_id_t (Some i)) visited color log
          = Some (Inr (visited', log1))"
      unfolding mark_returns_def by blast
    have "count_connected_loop_log fuel graph i visited color log = Some (Inr (k, log'))"
      if "max F1 F2 \<le> fuel" for fuel
    proof -
      from that have "F1 \<le> fuel" "F2 \<le> fuel" by simp_all
      with F1 [of fuel] F2 [of fuel] i True show ?thesis
        by (subst count_connected_loop_log.simps) (simp add: used at)
    qed
    with r show ?thesis by blast
  qed
qed

lemma built_whole_graph:
  assumes "graph_raw_new n max_edges n = Inr graph0"
    and "add_edges graph0 ps = Inr graph"
    and "\<forall>p \<in> set ps. snd p < n"
  shows "whole_graph graph (rows_after 0 (\<lambda>v. []) ps) n"
proof -
  note f0 = graph_raw_new_rows [OF assms(1)]
  from f0 have r0: "graph_rows graph0 (\<lambda>v. [])" by simp
  from add_edges_rows [OF r0 assms(2)] f0
  have "graph_rows graph (rows_after 0 (\<lambda>v. []) ps)" "used_nodes graph = n"
    "length (nodes graph) = n"
    by simp_all
  moreover have "\<forall>v < n. \<forall>d \<in> fst ` set (rows_after 0 (\<lambda>v. []) ps v). d < n"
    using assms(3) by (simp only: rows_after_set) auto
  ultimately show ?thesis
    by (simp add: whole_graph_def)
qed

text \<open>
  C9. Let a graph be built by the constructor and any sequence of insertions between
  its nodes (cycles, self-loops and parallel edges included). Then \<open>mark_connected\<close>
  returns from every start node, for every \<open>visited\<close> array and every color other than
  the mark \<open>-1\<close> of an unvisited node; and one run of \<open>count_connected\<close> returns, and
  the log of its label writes holds every node exactly once.
\<close>

theorem mark_connected_returns_and_labels_once:
  assumes "graph_raw_new n max_edges n = Inr graph0"
    and "add_edges graph0 ps = Inr graph"
    and "\<forall>p \<in> set ps. snd p < n"
  shows "(\<forall>v visited color. v < n \<and> length visited = n \<and> color \<noteq> - 1 \<longrightarrow>
            (\<exists>F visited'. \<forall>fuel \<ge> F.
               mark_connected fuel graph (numeric_id_t (Some v)) visited color
                 = Some (Inr visited')))
     \<and> (\<exists>F k log. (\<forall>fuel \<ge> F.
               count_connected_log fuel n graph = Some (Inr (k, log))
             \<and> count_connected fuel n graph = Some (Inr k))
           \<and> distinct log \<and> set log = {..<n})"
proof -
  let ?rows = "rows_after 0 (\<lambda>v. []) ps"
  note wg = built_whole_graph [OF assms]
  have one: "\<exists>F visited'. \<forall>fuel \<ge> F.
      mark_connected fuel graph (numeric_id_t (Some v)) visited color = Some (Inr visited')"
    if "v < n" "length visited = n" "color \<noteq> - 1" for v visited color
  proof -
    from mark_total_any [OF wg that(3,2,1), of "[]"] obtain visited' log' where
      "mark_returns graph v visited color [] visited' log'"
      by blast
    then obtain F where F: "\<And>fuel. F \<le> fuel \<Longrightarrow>
        mark_connected_log fuel graph (numeric_id_t (Some v)) visited color []
          = Some (Inr (visited', log'))"
      unfolding mark_returns_def by blast
    have "mark_connected fuel graph (numeric_id_t (Some v)) visited color = Some (Inr visited')"
      if "F \<le> fuel" for fuel
    proof -
      have "mark_connected fuel graph (numeric_id_t (Some v)) visited color
          = erase_log (mark_connected_log fuel graph (numeric_id_t (Some v)) visited color [])"
        by (simp only: mark_connected_log_erase)
      then show ?thesis
        by (simp only: F [OF that] erase_log_simps)
    qed
    then show ?thesis by blast
  qed
  have l0: "labelled (replicate n (- 1 :: int)) = {}"
    unfolding labelled_def by auto
  have "\<exists>F k log'. (\<forall>fuel \<ge> F. count_connected_loop_log fuel graph 0 (replicate n (- 1)) 0 []
                   = Some (Inr (k, log')))
       \<and> distinct log' \<and> set log' = {..<n}"
    by (rule count_loop_labels_once [OF wg]) (simp_all add: l0)
  then obtain F k log where F: "\<And>fuel. F \<le> fuel \<Longrightarrow>
      count_connected_log fuel n graph = Some (Inr (k, log))"
    and r: "distinct log" "set log = {..<n}"
    unfolding count_connected_log_def by blast
  have "count_connected_log fuel n graph = Some (Inr (k, log))
      \<and> count_connected fuel n graph = Some (Inr k)" if "F \<le> fuel" for fuel
  proof -
    have "count_connected fuel n graph = erase_log (count_connected_log fuel n graph)"
      by (simp only: count_connected_log_erase)
    then show ?thesis
      by (simp only: F [OF that] erase_log_simps)
  qed
  with r have two: "\<exists>F k log. (\<forall>fuel \<ge> F.
               count_connected_log fuel n graph = Some (Inr (k, log))
             \<and> count_connected fuel n graph = Some (Inr k))
           \<and> distinct log \<and> set log = {..<n}"
    by blast
  from one two show ?thesis by blast
qed

theorem mark_connected_returns_and_labels_once_witness:
  "(\<exists>graph0 graph.
       graph_raw_new 2 3 2 = Inr graph0
     \<and> add_edges graph0 [(0, 1), (1, 0), (1, 1)] = Inr graph
     \<and> (\<exists>F visited'. \<forall>fuel \<ge> F.
           mark_connected fuel graph (numeric_id_t (Some 1)) [- 1, - 1] 0 = Some (Inr visited'))
     \<and> (\<exists>F k log. (\<forall>fuel \<ge> F.
               count_connected_log fuel 2 graph = Some (Inr (k, log))
             \<and> count_connected fuel 2 graph = Some (Inr k))
           \<and> distinct log \<and> set log = {..<2}))
   \<and> (case graph_raw_new 2 3 2 of
         Inl err \<Rightarrow> None
       | Inr graph0 \<Rightarrow>
          (case add_edges graph0 [(0, 1), (1, 0), (1, 1)] of
             Inl err \<Rightarrow> None
           | Inr graph \<Rightarrow> count_connected_log 20 2 graph)) = Some (Inr (1, [0, 1]))"
proof -
  have run: "(case graph_raw_new 2 3 2 of
         Inl err \<Rightarrow> None
       | Inr graph0 \<Rightarrow>
          (case add_edges graph0 [(0, 1), (1, 0), (1, 1)] of
             Inl err \<Rightarrow> None
           | Inr graph \<Rightarrow> count_connected_log 20 2 graph)) = Some (Inr (1, [0, 1]))"
    by code_simp
  let ?ps = "[(0 :: nat, 1 :: nat), (1, 0), (1, 1)]"
  obtain graph0 where g0: "graph_raw_new 2 3 2 = Inr graph0"
    by (simp add: graph_raw_new_def)
  note f0 = graph_raw_new_rows [OF g0]
  from f0 have r0: "graph_rows graph0 (\<lambda>v. [])" by simp
  obtain graph where g: "add_edges graph0 ?ps = Inr graph"
    using add_edges_succeeds [OF r0, of ?ps] f0 by auto
  have b: "\<forall>p \<in> set ?ps. snd p < 2" by simp
  note t = mark_connected_returns_and_labels_once [OF g0 g b]
  have h: "(1 :: nat) < 2 \<and> length [- 1, - 1 :: int] = 2 \<and> (0 :: int) \<noteq> - 1" by simp
  note c1 = t [THEN conjunct1, rule_format, OF h]
    and c2 = t [THEN conjunct2]
  show ?thesis
    using g0 g c1 c2 run by blast
qed

section \<open>The graphs as objects in a store\<close>

text \<open>
  To speak about what a call leaves unchanged, the graph objects are put in a store that
  maps addresses to objects; the addresses below \<open>next_address\<close> are those of the
  objects that exist. A new object (a by-value parameter, a local variable) gets the next
  address, so it is no object that existed before. A member function called on the object
  at \<open>obj\<close> reads \<open>object store obj\<close>, and \<open>add_edge\<close>, the only member that is not
  \<open>const\<close>, writes the changed object back to \<open>obj\<close>. Every function takes the store and
  returns it; an exception ends the evaluation and no store is returned.
\<close>

type_synonym address = nat

record store =
  object :: "address \<Rightarrow> graph_raw"
  next_address :: address

definition new_object :: "store \<Rightarrow> graph_raw \<Rightarrow> address \<times> store" where
  "new_object store graph =
     (next_address store,
      store\<lparr>object := (object store)(next_address store := graph),
            next_address := Suc (next_address store)\<rparr>)"

definition add_edge_at :: "store \<Rightarrow> address \<Rightarrow> node_id_t \<Rightarrow> node_id_t \<Rightarrow> error + store" where
  "add_edge_at store obj src dst =
     (case add_edge (object store obj) src dst of
        Inl err \<Rightarrow> Inl err
      | Inr graph' \<Rightarrow> Inr (store\<lparr>object := (object store)(obj := graph')\<rparr>))"

lemma add_edge_at_ok:
  "add_edge_at store obj s d = Inr store' \<Longrightarrow>
     next_available (edges (object store obj)) < length (edge_memory (edges (object store obj))) \<and>
     next_available (edges (object store' obj)) = Suc (next_available (edges (object store obj))) \<and>
     length (edge_memory (edges (object store' obj)))
       = length (edge_memory (edges (object store obj)))"
  by (auto simp: add_edge_at_def split: sum.splits dest: add_edge_ok)

text \<open>
  The inner loop of \<open>double_up_edges\<close>, with \<open>graph\<close> and \<open>new_graph\<close> the addresses of
  the two objects.
\<close>

function double_up_edges_fanout_at ::
  "store \<Rightarrow> address \<Rightarrow> address \<Rightarrow> node_id_t \<Rightarrow> optional_edge_id_t \<Rightarrow> error + store" where
  "double_up_edges_fanout_at store graph new_graph node_idx edge_idx =
     (case edge_idx of
        None \<Rightarrow> Inr store
      | Some e \<Rightarrow>
         (case dst_node (object store graph) e of
            Inl err \<Rightarrow> Inl err
          | Inr dst \<Rightarrow>
             (case add_edge_at store new_graph node_idx dst of
                Inl err \<Rightarrow> Inl err
              | Inr store1 \<Rightarrow>
                 (case add_edge_at store1 new_graph dst node_idx of
                    Inl err \<Rightarrow> Inl err
                  | Inr store2 \<Rightarrow>
                     (case next_edge (object store2 graph) e of
                        Inl err \<Rightarrow> Inl err
                      | Inr edge_idx' \<Rightarrow>
                          double_up_edges_fanout_at store2 graph new_graph node_idx
                            edge_idx')))))"
  by pat_completeness auto
termination
  apply (relation "measure (\<lambda>(store, graph, new_graph, node_idx, edge_idx).
            length (edge_memory (edges (object store new_graph)))
              - next_available (edges (object store new_graph)))")
   apply simp
  apply clarsimp
  subgoal for store graph new_graph node_idx e dst store1 store2 nxt
    using add_edge_at_ok [of store new_graph node_idx dst store1]
      add_edge_at_ok [of store1 new_graph dst node_idx store2]
    by arith
  done

declare double_up_edges_fanout_at.simps [simp del]

text \<open>The outer loop; \<open>orig_nodes\<close> is read once, before the loop.\<close>

function double_up_edges_nodes_at ::
  "store \<Rightarrow> address \<Rightarrow> address \<Rightarrow> nat \<Rightarrow> nat \<Rightarrow> error + store" where
  "double_up_edges_nodes_at store graph new_graph orig_nodes i =
     (if i < orig_nodes
      then (let node_idx = numeric_id_t (Some i)
            in case first_edge (object store graph) node_idx of
                 Inl err \<Rightarrow> Inl err
               | Inr edge_idx \<Rightarrow>
                  (case double_up_edges_fanout_at store graph new_graph node_idx edge_idx of
                     Inl err \<Rightarrow> Inl err
                   | Inr store' \<Rightarrow>
                       double_up_edges_nodes_at store' graph new_graph orig_nodes (i + 1)))
      else Inr store)"
  by pat_completeness auto
termination
  by (relation "measure (\<lambda>(store, graph, new_graph, orig_nodes, i). orig_nodes - i)") auto

declare double_up_edges_nodes_at.simps [simp del]

text \<open>
  \<open>double_up_edges(const graph_t graph)\<close> called with the object at \<open>arg\<close>: the
  parameter is a new object, a copy of the argument; \<open>new_graph\<close> is a new object; the
  value of \<open>new_graph\<close> is returned.
\<close>

definition double_up_edges_at ::
  "nat \<Rightarrow> nat \<Rightarrow> store \<Rightarrow> address \<Rightarrow> error + graph_raw \<times> store" where
  "double_up_edges_at max_nodes max_edges store arg =
     (let (graph, store1) = new_object store (object store arg);
          orig_nodes = get_num_nodes (object store1 graph)
      in case graph_raw_new max_nodes max_edges orig_nodes of
           Inl err \<Rightarrow> Inl err
         | Inr fresh \<Rightarrow>
            (let (new_graph, store2) = new_object store1 fresh
             in case double_up_edges_nodes_at store2 graph new_graph orig_nodes 0 of
                  Inl err \<Rightarrow> Inl err
                | Inr store3 \<Rightarrow> Inr (object store3 new_graph, store3)))"

text \<open>
  \<open>mark_connected\<close> and \<open>count_connected\<close> take the graph by \<open>const\<close> reference:
  \<open>graph\<close> is the address of the object.
\<close>

fun mark_connected_at ::
  "nat \<Rightarrow> store \<Rightarrow> address \<Rightarrow> node_id_t \<Rightarrow> int list \<Rightarrow> int
     \<Rightarrow> (error + int list \<times> store) option"
and mark_connected_fanout_at ::
  "nat \<Rightarrow> store \<Rightarrow> address \<Rightarrow> optional_edge_id_t \<Rightarrow> int list \<Rightarrow> int
     \<Rightarrow> (error + int list \<times> store) option"
where
  "mark_connected_at 0 store graph node_idx visited color = None"
| "mark_connected_at (Suc fuel) store graph node_idx visited color =
     (case id_value node_idx of
        Inl err \<Rightarrow> Some (Inl err)
      | Inr n \<Rightarrow>
         (if n < length visited
          then (case first_edge (object store graph) node_idx of
                  Inl err \<Rightarrow> Some (Inl err)
                | Inr edge_idx \<Rightarrow>
                    mark_connected_fanout_at fuel store graph edge_idx (visited[n := color])
                      color)
          else Some (Inl out_of_range)))"
| "mark_connected_fanout_at 0 store graph edge_idx visited color = None"
| "mark_connected_fanout_at (Suc fuel) store graph edge_idx visited color =
     (case edge_idx of
        None \<Rightarrow> Some (Inr (visited, store))
      | Some e \<Rightarrow>
         (case dst_node (object store graph) e of
            Inl err \<Rightarrow> Some (Inl err)
          | Inr dst \<Rightarrow>
             (case id_value dst of
                Inl err \<Rightarrow> Some (Inl err)
              | Inr d \<Rightarrow>
                 (case array_at visited d of
                    Inl err \<Rightarrow> Some (Inl err)
                  | Inr seen \<Rightarrow>
                     (case (if seen = - 1
                            then mark_connected_at fuel store graph dst visited color
                            else Some (Inr (visited, store))) of
                        None \<Rightarrow> None
                      | Some (Inl err) \<Rightarrow> Some (Inl err)
                      | Some (Inr (visited', store')) \<Rightarrow>
                         (case next_edge (object store' graph) e of
                            Inl err \<Rightarrow> Some (Inl err)
                          | Inr edge_idx' \<Rightarrow>
                              mark_connected_fanout_at fuel store' graph edge_idx' visited'
                                color))))))"

text \<open>A result together with the store it leaves.\<close>

definition with_store :: "store \<Rightarrow> (error + 'a) option \<Rightarrow> (error + 'a \<times> store) option" where
  "with_store store r = map_option (map_sum id (\<lambda>x. (x, store))) r"

lemma with_store_simps [simp]:
  "with_store store None = None"
  "with_store store (Some (Inl err)) = Some (Inl err)"
  "with_store store (Some (Inr x)) = Some (Inr (x, store))"
  by (simp_all add: with_store_def)

lemma with_store_Inr:
  "with_store store r = Some (Inr (x, store')) \<Longrightarrow> store' = store \<and> r = Some (Inr x)"
  by (cases r) (auto simp: with_store_def map_sum_def split: sum.splits)

text \<open>Marking reads the graph and leaves every object of the store as it is.\<close>

lemma mark_connected_at_eq_both:
  "(\<forall>node_idx visited.
      mark_connected_at fuel store graph node_idx visited color
        = with_store store (mark_connected fuel (object store graph) node_idx visited color))
   \<and> (\<forall>edge_idx visited.
      mark_connected_fanout_at fuel store graph edge_idx visited color
        = with_store store
            (mark_connected_fanout fuel (object store graph) edge_idx visited color))"
proof (induction fuel)
  case 0
  show ?case by simp
next
  case (Suc fuel)
  then have m: "mark_connected_at fuel store graph node_idx visited color
        = with_store store (mark_connected fuel (object store graph) node_idx visited color)"
    and f: "mark_connected_fanout_at fuel store graph edge_idx visited color
        = with_store store
            (mark_connected_fanout fuel (object store graph) edge_idx visited color)"
    for node_idx edge_idx visited
    by simp_all
  have a: "mark_connected_at (Suc fuel) store graph node_idx visited color
        = with_store store
            (mark_connected (Suc fuel) (object store graph) node_idx visited color)"
    for node_idx visited
    by (simp add: f split: sum.splits)
  have b: "mark_connected_fanout_at (Suc fuel) store graph edge_idx visited color
        = with_store store
            (mark_connected_fanout (Suc fuel) (object store graph) edge_idx visited color)"
    for edge_idx visited
  proof (cases edge_idx)
    case None
    then show ?thesis by simp
  next
    case (Some e)
    show ?thesis
    proof (cases "dst_node (object store graph) e")
      case (Inl err)
      then show ?thesis by (simp add: Some)
    next
      case (Inr dst)
      show ?thesis
      proof (cases "id_value dst")
        case (Inl err)
        then show ?thesis by (simp add: Some Inr)
      next
        case d: (Inr d)
        show ?thesis
        proof (cases "array_at visited d")
          case (Inl err)
          then show ?thesis by (simp add: Some Inr d)
        next
          case seen: (Inr seen)
          show ?thesis
          proof (cases "seen = - 1")
            case False
            then show ?thesis
              by (simp add: Some Inr d seen f split: sum.splits)
          next
            case True
            show ?thesis
            proof (cases "mark_connected fuel (object store graph) dst visited color")
              case None
              then show ?thesis
                by (simp add: Some Inr d seen True m)
            next
              case some: (Some r)
              show ?thesis
              proof (cases r)
                case (Inl err)
                with some show ?thesis
                  by (simp add: Some Inr d seen True m)
              next
                case res: (Inr visited')
                with some show ?thesis
                  by (simp add: Some Inr d seen True m f split: sum.splits)
              qed
            qed
          qed
        qed
      qed
    qed
  qed
  from a b show ?case by blast
qed

lemma mark_connected_at_eq:
  "mark_connected_at fuel store graph node_idx visited color
     = with_store store (mark_connected fuel (object store graph) node_idx visited color)"
  using mark_connected_at_eq_both by blast

text \<open>
  The loop of \<open>count_connected\<close> reads \<open>graph.get_num_nodes()\<close> in every round. It
  comes to an end because marking has left the graph as it was.
\<close>

function count_connected_loop_at ::
  "nat \<Rightarrow> store \<Rightarrow> address \<Rightarrow> nat \<Rightarrow> int list \<Rightarrow> int \<Rightarrow> (error + int \<times> store) option" where
  "count_connected_loop_at fuel store graph i visited color =
     (if i < get_num_nodes (object store graph)
      then (let node_idx = numeric_id_t (Some i)
            in case array_at visited i of
                 Inl err \<Rightarrow> Some (Inl err)
               | Inr seen \<Rightarrow>
                  (if seen = - 1
                   then (case mark_connected_at fuel store graph node_idx visited color of
                           None \<Rightarrow> None
                         | Some (Inl err) \<Rightarrow> Some (Inl err)
                         | Some (Inr (visited', store')) \<Rightarrow>
                             count_connected_loop_at fuel store' graph (i + 1) visited'
                               (color + 1))
                   else count_connected_loop_at fuel store graph (i + 1) visited color))
      else Some (Inr (color, store)))"
  by pat_completeness auto
termination
  apply (relation "measure (\<lambda>(fuel, store, graph, i, visited, color).
            get_num_nodes (object store graph) - i)")
    apply simp
   apply (auto simp: mark_connected_at_eq dest!: with_store_Inr)
  done

declare count_connected_loop_at.simps [simp del]

definition count_connected_at ::
  "nat \<Rightarrow> nat \<Rightarrow> store \<Rightarrow> address \<Rightarrow> (error + int \<times> store) option" where
  "count_connected_at fuel max_nodes store graph =
     count_connected_loop_at fuel store graph 0 (replicate max_nodes (- 1)) 0"

lemma count_connected_loop_at_eq:
  "count_connected_loop_at fuel store graph i visited color
     = with_store store (count_connected_loop fuel (object store graph) i visited color)"
proof (induction "get_num_nodes (object store graph) - i" arbitrary: i visited color)
  case 0
  then show ?case
    by (subst count_connected_loop_at.simps, subst count_connected_loop.simps) simp
next
  case (Suc k)
  then have i: "i < get_num_nodes (object store graph)"
    and k: "k = get_num_nodes (object store graph) - (i + 1)"
    by simp_all
  note ih = Suc.hyps(1) [OF k]
  show ?case
  proof (cases "array_at visited i")
    case (Inl err)
    with i show ?thesis
      by (subst count_connected_loop_at.simps, subst count_connected_loop.simps) simp
  next
    case (Inr seen)
    show ?thesis
    proof (cases "seen = - 1")
      case False
      with i Inr ih [of visited color] show ?thesis
        by (subst count_connected_loop_at.simps, subst count_connected_loop.simps) simp
    next
      case True
      show ?thesis
      proof (cases "mark_connected fuel (object store graph) (numeric_id_t (Some i)) visited
          color")
        case None
        with i Inr True show ?thesis
          by (subst count_connected_loop_at.simps, subst count_connected_loop.simps)
            (simp add: mark_connected_at_eq)
      next
        case (Some r)
        show ?thesis
        proof (cases r)
          case (Inl err)
          with i Inr True Some show ?thesis
            by (subst count_connected_loop_at.simps, subst count_connected_loop.simps)
              (simp add: mark_connected_at_eq)
        next
          case res: (Inr visited')
          with i Inr True Some ih [of visited' "color + 1"] show ?thesis
            by (subst count_connected_loop_at.simps, subst count_connected_loop.simps)
              (simp add: mark_connected_at_eq)
        qed
      qed
    qed
  qed
qed

lemma count_connected_at_eq:
  "count_connected_at fuel max_nodes store graph
     = with_store store (count_connected fuel max_nodes (object store graph))"
  by (simp add: count_connected_at_def count_connected_def count_connected_loop_at_eq)

section \<open>Doubling leaves the original as it is\<close>

lemma add_edge_at_cases:
  "add_edge_at store obj src dst = Inr store' \<longleftrightarrow>
     (\<exists>g. add_edge (object store obj) src dst = Inr g
        \<and> store' = store\<lparr>object := (object store)(obj := g)\<rparr>)"
  by (auto simp: add_edge_at_def split: sum.splits)

lemma store_write_same [simp]:
  "store\<lparr>object := (object store)(obj := object store obj)\<rparr> = store"
  by simp

lemma double_up_edges_fanout_at_eq:
  "graph \<noteq> new_graph \<Longrightarrow>
   double_up_edges_fanout_at store graph new_graph v e
     = (case double_up_edges_fanout (object store graph) (object store new_graph) v e of
          Inl err \<Rightarrow> Inl err
        | Inr g \<Rightarrow> Inr (store\<lparr>object := (object store)(new_graph := g)\<rparr>))"
proof (induction store graph new_graph v e rule: double_up_edges_fanout_at.induct)
  case (1 store graph new_graph node_idx edge_idx)
  note ih = "1.IH"
  let ?G = "object store graph" and ?N = "object store new_graph"
  show ?case
  proof (cases edge_idx)
    case None
    then show ?thesis
      by (subst double_up_edges_fanout_at.simps, subst double_up_edges_fanout.simps) simp
  next
    case (Some e)
    show ?thesis
    proof (cases "dst_node ?G e")
      case (Inl err)
      then show ?thesis
        by (subst double_up_edges_fanout_at.simps, subst double_up_edges_fanout.simps)
          (simp add: Some)
    next
      case (Inr dst)
      show ?thesis
      proof (cases "add_edge ?N node_idx dst")
        case (Inl err)
        then show ?thesis
          by (subst double_up_edges_fanout_at.simps, subst double_up_edges_fanout.simps)
            (simp add: Some Inr add_edge_at_def)
      next
        case g1: (Inr g1)
        let ?s1 = "store\<lparr>object := (object store)(new_graph := g1)\<rparr>"
        have a1: "add_edge_at store new_graph node_idx dst = Inr ?s1"
          by (simp add: add_edge_at_def g1)
        show ?thesis
        proof (cases "add_edge g1 dst node_idx")
          case (Inl err)
          then show ?thesis
            by (subst double_up_edges_fanout_at.simps, subst double_up_edges_fanout.simps)
              (simp add: Some Inr g1 add_edge_at_def)
        next
          case g2: (Inr g2)
          let ?s2 = "store\<lparr>object := (object store)(new_graph := g2)\<rparr>"
          have a2: "add_edge_at ?s1 new_graph dst node_idx = Inr ?s2"
            by (simp add: add_edge_at_def g2)
          have G2: "object ?s2 graph = ?G" using "1.prems" by simp
          show ?thesis
          proof (cases "next_edge ?G e")
            case (Inl err)
            then show ?thesis
              using "1.prems"
              by (subst double_up_edges_fanout_at.simps, subst double_up_edges_fanout.simps)
                (simp add: Some Inr g1 g2 add_edge_at_def)
          next
            case nx: (Inr edge_idx')
            have n2: "next_edge (object ?s2 graph) e = Inr edge_idx'"
              using nx G2 by simp
            have upd: "?s2\<lparr>object := (object ?s2)(new_graph := g)\<rparr>
                = store\<lparr>object := (object store)(new_graph := g)\<rparr>" for g
              by simp
            have N2: "object ?s2 new_graph = g2" by simp
            from ih [OF Some Inr a1 a2 n2 "1.prems"]
            have "double_up_edges_fanout_at ?s2 graph new_graph node_idx edge_idx'
                = (case double_up_edges_fanout ?G g2 node_idx edge_idx' of
                     Inl err \<Rightarrow> Inl err
                   | Inr g \<Rightarrow> Inr (store\<lparr>object := (object store)(new_graph := g)\<rparr>))"
              unfolding G2 N2 upd .
            then show ?thesis
              using "1.prems"
              by (subst double_up_edges_fanout_at.simps, subst double_up_edges_fanout.simps)
                (simp add: Some Inr g1 g2 nx add_edge_at_def)
          qed
        qed
      qed
    qed
  qed
qed

lemma double_up_edges_nodes_at_eq:
  assumes ne: "graph \<noteq> new_graph"
  shows "orig_nodes = get_num_nodes (object store graph) \<Longrightarrow>
     double_up_edges_nodes_at store graph new_graph orig_nodes i
     = (case double_up_edges_nodes (object store graph) (object store new_graph) i of
          Inl err \<Rightarrow> Inl err
        | Inr g \<Rightarrow> Inr (store\<lparr>object := (object store)(new_graph := g)\<rparr>))"
proof (induction "orig_nodes - i" arbitrary: i store)
  case 0
  then show ?case
    by (subst double_up_edges_nodes_at.simps, subst double_up_edges_nodes.simps) simp
next
  case (Suc k)
  let ?G = "object store graph" and ?N = "object store new_graph"
  from Suc.hyps(2) Suc.prems have i: "i < orig_nodes" "i < get_num_nodes ?G"
    and k: "k = orig_nodes - (i + 1)"
    by simp_all
  show ?case
  proof (cases "first_edge ?G (numeric_id_t (Some i))")
    case (Inl err)
    with i show ?thesis
      by (subst double_up_edges_nodes_at.simps, subst double_up_edges_nodes.simps) simp
  next
    case (Inr edge_idx)
    show ?thesis
    proof (cases "double_up_edges_fanout ?G ?N (numeric_id_t (Some i)) edge_idx")
      case (Inl err)
      with i Inr show ?thesis
        by (subst double_up_edges_nodes_at.simps, subst double_up_edges_nodes.simps)
          (simp add: double_up_edges_fanout_at_eq [OF ne])
    next
      case g: (Inr g)
      let ?s1 = "store\<lparr>object := (object store)(new_graph := g)\<rparr>"
      have G1: "object ?s1 graph = ?G" using ne by simp
      have on: "orig_nodes = get_num_nodes (object ?s1 graph)"
        using Suc.prems G1 by simp
      have upd: "?s1\<lparr>object := (object ?s1)(new_graph := g')\<rparr>
          = store\<lparr>object := (object store)(new_graph := g')\<rparr>" for g'
        by simp
      have N1: "object ?s1 new_graph = g" by simp
      from Suc.hyps(1) [OF k on]
      have "double_up_edges_nodes_at ?s1 graph new_graph orig_nodes (i + 1)
          = (case double_up_edges_nodes ?G g (i + 1) of
               Inl err \<Rightarrow> Inl err
             | Inr g' \<Rightarrow> Inr (store\<lparr>object := (object store)(new_graph := g')\<rparr>))"
        unfolding G1 N1 upd .
      with i Inr g show ?thesis
        by (subst double_up_edges_nodes_at.simps, subst double_up_edges_nodes.simps)
          (simp add: double_up_edges_fanout_at_eq [OF ne])
    qed
  qed
qed

text \<open>
  The call of \<open>double_up_edges\<close> on the object at \<open>arg\<close> returns what the function
  returns on the value of that object, and a store with two more objects: the parameter,
  still equal to the argument, and \<open>new_graph\<close>.
\<close>

lemma double_up_edges_at_eq:
  "double_up_edges_at max_nodes max_edges store arg
     = (case double_up_edges max_nodes max_edges (object store arg) of
          Inl err \<Rightarrow> Inl err
        | Inr g \<Rightarrow>
            Inr (g, store\<lparr>object := (object store)
                        (next_address store := object store arg,
                         Suc (next_address store) := g),
                      next_address := Suc (Suc (next_address store))\<rparr>))"
proof (cases "graph_raw_new max_nodes max_edges (get_num_nodes (object store arg))")
  case (Inl err)
  then show ?thesis
    by (simp add: double_up_edges_at_def double_up_edges_def new_object_def Let_def)
next
  case (Inr fresh)
  let ?p = "next_address store" and ?A = "object store arg"
  let ?s2 = "store\<lparr>object := (object store)(?p := ?A, Suc ?p := fresh),
      next_address := Suc (Suc ?p)\<rparr>"
  have ne: "?p \<noteq> Suc ?p" by simp
  have eq: "double_up_edges_nodes_at ?s2 ?p (Suc ?p) (get_num_nodes ?A) 0
     = (case double_up_edges_nodes ?A fresh 0 of
          Inl err \<Rightarrow> Inl err
        | Inr g \<Rightarrow> Inr (?s2\<lparr>object := (object ?s2)(Suc ?p := g)\<rparr>))"
    using double_up_edges_nodes_at_eq [OF ne, of "get_num_nodes ?A" ?s2 0]
    by (simp cong: sum.case_cong)
  show ?thesis
    by (simp add: double_up_edges_at_def double_up_edges_def new_object_def Let_def Inr eq
        split: sum.splits)
qed

lemma count_connected_built_returns:
  assumes "graph_raw_new n max_edges n = Inr graph0"
    and "add_edges graph0 ps = Inr graph"
    and "\<forall>p \<in> set ps. snd p < n"
  shows "\<exists>F k. \<forall>fuel \<ge> F. count_connected fuel n graph = Some (Inr k)"
proof -
  note wg = built_whole_graph [OF assms]
  have l0: "labelled (replicate n (- 1 :: int)) = {}"
    unfolding labelled_def by auto
  have "\<exists>F k log'. (\<forall>fuel \<ge> F. count_connected_loop_log fuel graph 0 (replicate n (- 1)) 0 []
                   = Some (Inr (k, log')))
       \<and> distinct log' \<and> set log' = {..<n}"
    by (rule count_loop_labels_once [OF wg]) (simp_all add: l0)
  then obtain F k log where F: "\<And>fuel. F \<le> fuel \<Longrightarrow>
      count_connected_log fuel n graph = Some (Inr (k, log))"
    unfolding count_connected_log_def by blast
  have "count_connected fuel n graph = Some (Inr k)" if "F \<le> fuel" for fuel
  proof -
    have "count_connected fuel n graph = erase_log (count_connected_log fuel n graph)"
      by (simp only: count_connected_log_erase)
    then show ?thesis
      by (simp only: F [OF that] erase_log_simps)
  qed
  then show ?thesis by blast
qed

text \<open>
  C7. Let the object at \<open>arg\<close> be a graph built by the constructor, with all \<open>n\<close> nodes
  of the array in use as \<open>read_graph\<close> builds it, and by a sequence of insertions. Let
  \<open>double_up_edges\<close> be called on it and return; let the returned graph become a new
  object, and let \<open>count_connected\<close> then walk any object \<open>walked\<close> of the store and
  return. Then the returned graph has the same number of nodes; it is built by a fresh
  constructor call and by inserting, for every edge met on the walk over the original,
  that edge and its reverse, so that the edge list of a node \<open>v\<close> holds the nodes joined
  to \<open>v\<close> by an edge of the original in either direction. And every object that existed
  before the call is unchanged after the call and after the walk: in particular the
  original has the node array (the edge heads) and the edge pool (the edge records and the
  counter) it had, and the walk has left the doubled graph as it was.
\<close>

theorem double_up_edges_new_graph_original_unchanged:
  assumes "graph_raw_new n max_edges n = Inr graph0"
    and "add_edges graph0 ps = Inr graph"
    and "arg < next_address store" and "object store arg = graph"
    and "double_up_edges_at n max_edges store arg = Inr (bidir_graph, store1)"
    and "new_object store1 bidir_graph = (bidir, store2)"
    and "count_connected_at fuel n store2 walked = Some (Inr (k, store3))"
  shows "get_num_nodes bidir_graph = get_num_nodes graph
     \<and> (\<exists>rows new_graph.
           print_graph (Suc (length ps)) graph = Some (Inr rows)
         \<and> graph_raw_new n max_edges (get_num_nodes graph) = Inr new_graph
         \<and> add_edges new_graph (double_rows rows) = Inr bidir_graph)
     \<and> (\<forall>v < n. \<exists>first row.
           first_edge bidir_graph (numeric_id_t (Some v)) = Inr first
         \<and> print_edges (Suc (2 * length ps)) bidir_graph first = Some (Inr row)
         \<and> fst ` set row = {d. (v, d) \<in> set ps \<or> (d, v) \<in> set ps})
     \<and> double_up_edges n max_edges graph = Inr bidir_graph
     \<and> (\<forall>a < next_address store.
           object store1 a = object store a \<and> object store3 a = object store a)
     \<and> nodes (object store1 arg) = nodes graph \<and> edges (object store1 arg) = edges graph
     \<and> nodes (object store3 arg) = nodes graph \<and> edges (object store3 arg) = edges graph
     \<and> object store2 bidir = bidir_graph \<and> object store3 bidir = bidir_graph"
proof -
  let ?p = "next_address store"
  from assms(5) have pure: "double_up_edges n max_edges graph = Inr bidir_graph"
    and s1: "store1 = store\<lparr>object := (object store)(?p := graph, Suc ?p := bidir_graph),
        next_address := Suc (Suc ?p)\<rparr>"
    unfolding double_up_edges_at_eq assms(4) by (auto split: sum.splits)
  from assms(6) have b: "bidir = Suc (Suc ?p)"
    and s2: "store2 = store1\<lparr>object := (object store1)(Suc (Suc ?p) := bidir_graph),
        next_address := Suc (Suc (Suc ?p))\<rparr>"
    unfolding new_object_def s1 by auto
  from assms(7) have s3: "store3 = store2"
    unfolding count_connected_at_eq by (auto dest: with_store_Inr)
  have frame1: "object store1 a = object store a" if "a < ?p" for a
    using that unfolding s1 by simp
  have frame3: "object store3 a = object store a" if "a < ?p" for a
    using that unfolding s3 s2 s1 by simp
  have ob: "object store2 bidir = bidir_graph"
    unfolding s2 b by simp
  note old = doubled_graph_walk [OF assms(1,2) pure]
  from frame1 [OF assms(3)] frame3 [OF assms(3)] assms(4)
  have orig: "object store1 arg = graph" "object store3 arg = graph"
    by simp_all
  from old pure frame1 frame3 orig ob s3 show ?thesis
    by simp
qed

theorem double_up_edges_new_graph_original_unchanged_witness:
  "\<exists>graph0 graph bidir_graph store1 bidir store2 fuel k store3.
       graph_raw_new 3 5 3 = Inr graph0
     \<and> add_edges graph0 [(0, 1), (2, 1)] = Inr graph
     \<and> double_up_edges_at 3 5 \<lparr>object = \<lambda>a. graph, next_address = 1\<rparr> 0
           = Inr (bidir_graph, store1)
     \<and> new_object store1 bidir_graph = (bidir, store2)
     \<and> count_connected_at fuel 3 store2 bidir = Some (Inr (k, store3))
     \<and> get_num_nodes bidir_graph = get_num_nodes graph
     \<and> (\<exists>rows new_graph.
           print_graph (Suc (length [(0 :: nat, 1 :: nat), (2, 1)])) graph = Some (Inr rows)
         \<and> graph_raw_new 3 5 (get_num_nodes graph) = Inr new_graph
         \<and> add_edges new_graph (double_rows rows) = Inr bidir_graph)
     \<and> (\<exists>first row.
           first_edge bidir_graph (numeric_id_t (Some 1)) = Inr first
         \<and> print_edges (Suc (2 * length [(0 :: nat, 1 :: nat), (2, 1)])) bidir_graph first
              = Some (Inr row)
         \<and> fst ` set row = {d. (1, d) \<in> set [(0 :: nat, 1 :: nat), (2, 1)]
                                \<or> (d, 1) \<in> set [(0 :: nat, 1 :: nat), (2, 1)]})
     \<and> nodes (object store1 0) = nodes graph \<and> edges (object store1 0) = edges graph
     \<and> nodes (object store3 0) = nodes graph \<and> edges (object store3 0) = edges graph
     \<and> object store3 bidir = bidir_graph"
proof -
  let ?ps = "[(0 :: nat, 1 :: nat), (2, 1)]"
  obtain graph0 where g0: "graph_raw_new 3 5 3 = Inr graph0"
    by (simp add: graph_raw_new_def)
  note f0 = graph_raw_new_rows [OF g0]
  from f0 have r0: "graph_rows graph0 (\<lambda>v. [])" by simp
  obtain graph where g: "add_edges graph0 ?ps = Inr graph"
    using add_edges_succeeds [OF r0, of ?ps] f0 by auto
  let ?rows = "map (\<lambda>v. (v, rows_after 0 (\<lambda>v. []) ?ps v)) [0..<3]"
  from add_edges_rows [OF r0 g] f0
  have r: "graph_rows graph (rows_after 0 (\<lambda>v. []) ?ps)" and u: "used_nodes graph = 3"
    by simp_all
  have l: "length (double_rows ?rows) = 2 * length ?ps"
    by (rule length_double_rows_after) simp
  have s: "set (double_rows ?rows) = set ?ps \<union> (set ?ps)\<inverse>"
    by (rule set_double_rows_after) simp
  have src: "\<forall>p \<in> set (double_rows ?rows). fst p < 3"
    unfolding s by auto
  have dst: "\<forall>p \<in> set (double_rows ?rows). snd p < 3"
    unfolding s by auto
  from src l have "\<exists>bidir_graph. add_edges graph0 (double_rows ?rows) = Inr bidir_graph"
    using f0 by (intro add_edges_succeeds [OF r0]) auto
  then obtain bidir_graph where bg: "add_edges graph0 (double_rows ?rows) = Inr bidir_graph" ..
  then have b: "double_up_edges 3 5 graph = Inr bidir_graph"
    by (simp add: double_up_edges_rows [OF r] u g0)
  let ?store = "\<lparr>object = \<lambda>a. graph, next_address = 1\<rparr>"
  obtain store1 where da: "double_up_edges_at 3 5 ?store 0 = Inr (bidir_graph, store1)"
    by (simp add: double_up_edges_at_eq b)
  obtain bidir store2 where no: "new_object store1 bidir_graph = (bidir, store2)"
    by (cases "new_object store1 bidir_graph")
  from no have ob: "object store2 bidir = bidir_graph"
    by (auto simp: new_object_def)
  from count_connected_built_returns [OF g0 bg dst] obtain F k where
    "count_connected F 3 bidir_graph = Some (Inr k)"
    by blast
  then have cc: "count_connected_at F 3 store2 bidir = Some (Inr (k, store2))"
    by (simp add: count_connected_at_eq ob)
  have a: "0 < next_address ?store" and oa: "object ?store 0 = graph" by simp_all
  note t = double_up_edges_new_graph_original_unchanged [OF g0 g a oa da no cc]
  have one: "(1 :: nat) < 3" by simp
  note c1 = t [THEN conjunct1]
    and c2 = t [THEN conjunct2, THEN conjunct1]
    and c3 = t [THEN conjunct2, THEN conjunct2, THEN conjunct1, rule_format, OF one]
  note rest = t [THEN conjunct2, THEN conjunct2, THEN conjunct2, THEN conjunct2, THEN conjunct2]
  note n1 = rest [THEN conjunct1]
    and e1 = rest [THEN conjunct2, THEN conjunct1]
    and n3 = rest [THEN conjunct2, THEN conjunct2, THEN conjunct1]
    and e3 = rest [THEN conjunct2, THEN conjunct2, THEN conjunct2, THEN conjunct1]
    and o3 = rest [THEN conjunct2, THEN conjunct2, THEN conjunct2, THEN conjunct2, THEN conjunct2]
  show ?thesis
    apply (rule exI [of _ graph0], rule exI [of _ graph], rule exI [of _ bidir_graph])
    apply (rule exI [of _ store1], rule exI [of _ bidir], rule exI [of _ store2])
    apply (rule exI [of _ F], rule exI [of _ k], rule exI [of _ store2])
    apply (intro conjI)
               apply (fact g0)
              apply (fact g)
             apply (fact da)
            apply (fact no)
           apply (fact cc)
          apply (fact c1)
         apply (fact c2)
        apply (fact c3)
       apply (fact n1)
      apply (fact e1)
     apply (fact n3)
    apply (fact e3)
    apply (fact o3)
    done
qed

end
